theory Spec2Isabelle
  imports Main "HOL-Library.Word"
begin

section \<open>The distributed hash table of \<open>hash_map.hpp\<close>\<close>

text \<open>
  The table is a fixed number of logical slots spread over the ranks of a UPC++ job.
  Each rank owns \<open>slots_per_rank\<close> records and as many \<open>int\<close> occupancy counters;
  a slot is reached through the pair (rank, offset) that \<open>locate_slot\<close> computes.
  The model is sequential: a remote operation takes effect when it is issued, and the
  calls into UPC++ are recorded in a trace, so that which completion handles are waited
  on stays visible.
\<close>

subsection \<open>Machine integers\<close>

type_synonym u64 = "64 word" \<comment> \<open>\<open>uint64_t\<close> and \<open>size_t\<close>\<close>
type_synonym i32 = "32 word" \<comment> \<open>\<open>int\<close>, read with \<open>sint\<close>\<close>

subsection \<open>Data\<close>

text \<open>
  Modelled from the spec: \<open>kmer_t.hpp\<close> (the types \<open>pkmer_t\<close> and \<open>kmer_pair\<close>) is not
  part of the sources. A record is an immutable key plus a payload; the key type
  \<open>'k\<close> and its 64-bit hash \<open>H\<close> are parameters, and the hash of a record is the hash
  of its key.
\<close>

record ('k, 'e) kmer_pair =
  kmer :: 'k
  fb_ext :: 'e

record SlotLoc =
  rank :: i32
  offset :: i32

datatype error = DivByZero | OutOfBounds | BadAlloc

text \<open>
  The one-sided operations of UPC++ that the table issues: \<open>fetch_add\<close> (with the
  previous value its future will hold), \<open>load\<close>, \<open>rput\<close> and \<open>rget\<close>. An event
  is the call that issues an operation or the \<open>wait()\<close> on its future.
\<close>

datatype rma_op = FetchAdd SlotLoc i32 | Load SlotLoc | Put SlotLoc | Get SlotLoc

datatype event = Issue rma_op | Wait rma_op

datatype 'a future = Future rma_op 'a

text \<open>
  \<open>ranks\<close> is \<open>upcxx::rank_n()\<close>, the length of \<open>data_ptrs\<close> and \<open>used_ptrs\<close>.
  \<open>data\<close> and \<open>used\<close> are the two distributed arrays, addressed by
  \<open>data_ptrs[rank] + offset\<close> and \<open>used_ptrs[rank] + offset\<close>.
\<close>

record ('k, 'e) HashMap =
  ranks :: i32
  slots_per_rank :: i32
  my_size :: u64
  data :: "SlotLoc \<Rightarrow> ('k, 'e) kmer_pair"
  used :: "SlotLoc \<Rightarrow> i32"
  trace :: "event list"

subsection \<open>Construction\<close>

text \<open>
  \<open>slots_per_rank = size / ranks + 1\<close> is computed in \<open>size_t\<close> (the \<open>int\<close> operand
  \<open>ranks\<close> is sign-extended) and then stored in an \<open>int\<close>, which keeps the low 32
  bits. \<open>new_array\<close> is called with that \<open>int\<close> converted back to \<open>size_t\<close>; a
  negative value asks for more than \<open>2^63\<close> elements and the allocation fails.
  The record array starts with whatever \<open>new_array\<close> leaves there (\<open>d0\<close>); the
  counters start at 0.
\<close>

definition HashMap_new ::
  "i32 \<Rightarrow> u64 \<Rightarrow> (SlotLoc \<Rightarrow> ('k, 'e) kmer_pair) \<Rightarrow> error + ('k, 'e) HashMap" where
  "HashMap_new nranks sz d0 =
     (if nranks = 0 then Inl DivByZero
      else let spr = (ucast (sz div scast nranks + 1) :: i32)
           in if sint spr < 0 then Inl BadAlloc
              else Inr \<lparr>ranks = nranks, slots_per_rank = spr, my_size = sz,
                        data = d0, used = (\<lambda>_. 0), trace = []\<rparr>)"

subsection \<open>Helper functions\<close>

definition loc_of :: "('k, 'e) HashMap \<Rightarrow> u64 \<Rightarrow> SlotLoc" where
  "loc_of t slot =
     \<lparr>rank = ucast (slot div scast (slots_per_rank t)),
      offset = ucast (slot mod scast (slots_per_rank t))\<rparr>"

definition locate_slot :: "('k, 'e) HashMap \<Rightarrow> u64 \<Rightarrow> error + SlotLoc" where
  "locate_slot t slot =
     (if slots_per_rank t = 0 then Inl DivByZero else Inr (loc_of t slot))"

text \<open>An address lies inside the arrays that the constructor allocated.\<close>

definition in_segment :: "('k, 'e) HashMap \<Rightarrow> SlotLoc \<Rightarrow> bool" where
  "in_segment t loc \<longleftrightarrow>
     0 \<le> sint (rank loc) \<and> sint (rank loc) < sint (ranks t) \<and>
     0 \<le> sint (offset loc) \<and> sint (offset loc) < sint (slots_per_rank t)"

definition wait :: "'a future \<Rightarrow> ('k, 'e) HashMap \<Rightarrow> 'a \<times> ('k, 'e) HashMap" where
  "wait fut t = (case fut of Future op v \<Rightarrow> (v, t\<lparr>trace := trace t @ [Wait op]\<rparr>))"

definition request_slot ::
  "('k, 'e) HashMap \<Rightarrow> u64 \<Rightarrow> error + (i32 future \<times> ('k, 'e) HashMap)" where
  "request_slot t slot =
     (case locate_slot t slot of
        Inl e \<Rightarrow> Inl e
      | Inr loc \<Rightarrow>
          if in_segment t loc
          then Inr (Future (FetchAdd loc (used t loc)) (used t loc),
                    t\<lparr>used := (used t)(loc := used t loc + 1),
                      trace := trace t @ [Issue (FetchAdd loc (used t loc))]\<rparr>)
          else Inl OutOfBounds)"

definition slot_used :: "('k, 'e) HashMap \<Rightarrow> u64 \<Rightarrow> error + (bool \<times> ('k, 'e) HashMap)" where
  "slot_used t slot =
     (case locate_slot t slot of
        Inl e \<Rightarrow> Inl e
      | Inr loc \<Rightarrow>
          if in_segment t loc
          then (case wait (Future (Load loc) (used t loc))
                       (t\<lparr>trace := trace t @ [Issue (Load loc)]\<rparr>) of
                  (v, t') \<Rightarrow> Inr (v \<noteq> 0, t'))
          else Inl OutOfBounds)"

text \<open>\<open>write_slot\<close> discards the future of \<open>rput\<close>: nothing waits on it.\<close>

definition write_slot ::
  "('k, 'e) HashMap \<Rightarrow> u64 \<Rightarrow> ('k, 'e) kmer_pair \<Rightarrow> error + ('k, 'e) HashMap" where
  "write_slot t slot km =
     (case locate_slot t slot of
        Inl e \<Rightarrow> Inl e
      | Inr loc \<Rightarrow>
          if in_segment t loc
          then Inr (t\<lparr>data := (data t)(loc := km), trace := trace t @ [Issue (Put loc)]\<rparr>)
          else Inl OutOfBounds)"

definition read_slot ::
  "('k, 'e) HashMap \<Rightarrow> u64 \<Rightarrow> error + (('k, 'e) kmer_pair \<times> ('k, 'e) HashMap)" where
  "read_slot t slot =
     (case locate_slot t slot of
        Inl e \<Rightarrow> Inl e
      | Inr loc \<Rightarrow>
          if in_segment t loc
          then Inr (wait (Future (Get loc) (data t loc))
                         (t\<lparr>trace := trace t @ [Issue (Get loc)]\<rparr>))
          else Inl OutOfBounds)"

subsection \<open>Insert and find\<close>

function insert_loop ::
  "('k, 'e) HashMap \<Rightarrow> ('k, 'e) kmer_pair \<Rightarrow> u64 \<Rightarrow> u64 \<Rightarrow> error + (bool \<times> ('k, 'e) HashMap)"
  where
  "insert_loop t km hash probe =
     (if probe < my_size t then
        (let slot = (hash + probe) mod my_size t in
         case request_slot t slot of
           Inl e \<Rightarrow> Inl e
         | Inr (fut, t1) \<Rightarrow>
             (case wait fut t1 of
                (prev, t2) \<Rightarrow>
                  if prev = 0 then
                    (case write_slot t2 slot km of
                       Inl e \<Rightarrow> Inl e
                     | Inr t3 \<Rightarrow> Inr (True, t3))
                  else insert_loop t2 km hash (probe + 1)))
      else Inr (False, t))"
  by pat_completeness auto
termination
proof (relation "measure (\<lambda>(t, km, hash, probe). unat (my_size t - probe))", goal_cases)
  case 1
  show ?case by simp
next
  case (2 t km hash probe slot x2 fut t1 prev t2)
  have "my_size t1 = my_size t"
    using 2 by (auto simp: request_slot_def split: sum.splits if_splits)
  moreover have "my_size t2 = my_size t1"
    using 2 by (auto simp: wait_def split: future.splits)
  ultimately have sz: "my_size t2 = my_size t"
    by simp
  have "my_size t - probe \<noteq> 0"
    using 2(1) by auto
  then have "unat (my_size t - probe - 1) < unat (my_size t - probe)"
    by (simp add: unat_minus_one unat_gt_0)
  then show ?case
    by (simp add: sz diff_diff_eq)
qed

declare insert_loop.simps [simp del]

definition insert_kmer ::
  "('k \<Rightarrow> u64) \<Rightarrow> ('k, 'e) HashMap \<Rightarrow> ('k, 'e) kmer_pair \<Rightarrow> error + (bool \<times> ('k, 'e) HashMap)"
  where
  "insert_kmer H t km = insert_loop t km (H (kmer km)) 0"

text \<open>
  \<open>find\<close> is a do-while loop: the body runs before the condition is looked at, so the
  modulo by \<open>size()\<close> is evaluated even when the table has no slot. The result holds
  the return value and the out-parameter \<open>val_kmer\<close>, which every probe overwrites.
\<close>

function find_loop ::
  "('k, 'e) HashMap \<Rightarrow> 'k \<Rightarrow> u64 \<Rightarrow> u64 \<Rightarrow>
     error + (bool \<times> ('k, 'e) kmer_pair \<times> ('k, 'e) HashMap)"
  where
  "find_loop t key_kmer hash probe =
     (if my_size t = 0 then Inl DivByZero
      else
        (let slot = (hash + probe) mod my_size t; probe' = probe + 1 in
         case read_slot t slot of
           Inl e \<Rightarrow> Inl e
         | Inr (val_kmer, t1) \<Rightarrow>
             (let success = (kmer val_kmer = key_kmer) in
              if \<not> success \<and> probe' < my_size t
              then find_loop t1 key_kmer hash probe'
              else Inr (success, val_kmer, t1))))"
  by pat_completeness auto
termination
proof (relation "measure (\<lambda>(t, key_kmer, hash, probe). unat (my_size t - 1 - probe))", goal_cases)
  case 1
  show ?case by simp
next
  case (2 t key_kmer hash probe slot probe' x2 val_kmer t1 success)
  have sz: "my_size t1 = my_size t"
    using 2 by (auto simp: read_slot_def wait_def split: sum.splits if_splits)
  have "probe + 1 \<noteq> my_size t"
    using 2 by auto
  then have "my_size t - 1 - probe \<noteq> 0"
    by (auto simp: algebra_simps)
  moreover have "x \<noteq> 0 \<Longrightarrow> unat (x - 1) < unat x" for x :: u64
    by (simp add: unat_minus_one unat_gt_0)
  ultimately have lt: "unat (my_size t - 1 - probe - 1) < unat (my_size t - 1 - probe)"
    by blast
  have eq: "my_size t1 - 1 - probe' = my_size t - 1 - probe - 1"
    using 2 by (simp add: sz)
  have "unat (my_size t1 - 1 - probe') < unat (my_size t - 1 - probe)"
    unfolding eq by (rule lt)
  then show ?case
    by simp
qed

declare find_loop.simps [simp del]

definition find_kmer ::
  "('k \<Rightarrow> u64) \<Rightarrow> ('k, 'e) HashMap \<Rightarrow> 'k \<Rightarrow>
     error + (bool \<times> ('k, 'e) kmer_pair \<times> ('k, 'e) HashMap)"
  where
  "find_kmer H t key_kmer = find_loop t key_kmer (H key_kmer) 0"

subsection \<open>Callers\<close>

text \<open>
  The upstream producer calls \<open>insert\<close> once per record, and any participant may
  call \<open>request_slot(slot).wait()\<close> any number of times; both are runs of calls on
  the table, with the results collected in call order.
\<close>

primrec insert_all ::
  "('k \<Rightarrow> u64) \<Rightarrow> ('k, 'e) HashMap \<Rightarrow> ('k, 'e) kmer_pair list \<Rightarrow>
     error + (bool list \<times> ('k, 'e) HashMap)"
  where
  "insert_all H t [] = Inr ([], t)"
| "insert_all H t (km # kms) =
     (case insert_kmer H t km of
        Inl e \<Rightarrow> Inl e
      | Inr (b, t1) \<Rightarrow>
          (case insert_all H t1 kms of
             Inl e \<Rightarrow> Inl e
           | Inr (bs, t2) \<Rightarrow> Inr (b # bs, t2)))"

primrec request_all ::
  "('k, 'e) HashMap \<Rightarrow> u64 list \<Rightarrow> error + (i32 list \<times> ('k, 'e) HashMap)"
  where
  "request_all t [] = Inr ([], t)"
| "request_all t (slot # slots) =
     (case request_slot t slot of
        Inl e \<Rightarrow> Inl e
      | Inr (fut, t1) \<Rightarrow>
          (case wait fut t1 of
             (prev, t2) \<Rightarrow>
               (case request_all t2 slots of
                  Inl e \<Rightarrow> Inl e
                | Inr (prevs, t3) \<Rightarrow> Inr (prev # prevs, t3))))"

subsection \<open>The design of the spec, for comparison\<close>

text \<open>
  The table's parameters fit their C++ types: there is at least one rank, every rank
  owns at least one slot, and the ranks together own at least \<open>capacity\<close> slots.
\<close>

definition valid :: "('k, 'e) HashMap \<Rightarrow> bool" where
  "valid t \<longleftrightarrow>
     0 < sint (ranks t) \<and> 0 < sint (slots_per_rank t) \<and>
     unat (my_size t) \<le> nat (sint (ranks t)) * nat (sint (slots_per_rank t))"

text \<open>The probe sequence of the spec: \<open>(hash + probe) mod capacity\<close> for \<open>probe\<close> in \<open>0 .. capacity-1\<close>, with the sum taken in 64 bits.\<close>

definition probe_slots :: "u64 \<Rightarrow> u64 \<Rightarrow> nat \<Rightarrow> u64 list" where
  "probe_slots capacity hash n = map (\<lambda>probe. (hash + of_nat probe) mod capacity) [n..<unat capacity]"

text \<open>
  Insert as section 4.4 of the spec words it: go through the candidates in order, call
  \<open>requestSlot\<close> on each; on a previous value of 0 write the record there and return
  success; return failure when the candidates are exhausted.
\<close>

primrec insert_spec ::
  "('k, 'e) HashMap \<Rightarrow> ('k, 'e) kmer_pair \<Rightarrow> u64 list \<Rightarrow> error + (bool \<times> ('k, 'e) HashMap)"
  where
  "insert_spec t km [] = Inr (False, t)"
| "insert_spec t km (candidate # candidates) =
     (case request_slot t candidate of
        Inl e \<Rightarrow> Inl e
      | Inr (fut, t1) \<Rightarrow>
          (case wait fut t1 of
             (prev, t2) \<Rightarrow>
               if prev = 0 then
                 (case write_slot t2 candidate km of
                    Inl e \<Rightarrow> Inl e
                  | Inr t3 \<Rightarrow> Inr (True, t3))
               else insert_spec t2 km candidates))"

text \<open>
  A trace in which every operation is waited on as soon as it is issued.
\<close>

fun blocking :: "event list \<Rightarrow> bool" where
  "blocking [] = True"
| "blocking (Issue a # Wait b # es) = (a = b \<and> blocking es)"
| "blocking es = False"

text \<open>The events that an operation added to the trace.\<close>

definition new_events :: "('k, 'e) HashMap \<Rightarrow> ('k, 'e) HashMap \<Rightarrow> event list" where
  "new_events t t' = drop (length (trace t)) (trace t')"

subsection \<open>Concrete tables\<close>

text \<open>
  Keys and payloads are natural numbers here and the hash of a key is the key itself.
  \<open>table_of\<close> is a table whose record array holds the record of key 0 everywhere and
  whose counters are all 0: what the constructor leaves when the fresh memory is zeroed.
\<close>

definition hash_id :: "nat \<Rightarrow> u64" where
  "hash_id k = of_nat k"

definition rec_of :: "nat \<Rightarrow> (nat, nat) kmer_pair" where
  "rec_of k = \<lparr>kmer = k, fb_ext = 0\<rparr>"

definition table_of :: "i32 \<Rightarrow> i32 \<Rightarrow> u64 \<Rightarrow> (nat, nat) HashMap" where
  "table_of nranks spr capacity =
     \<lparr>ranks = nranks, slots_per_rank = spr, my_size = capacity,
      data = (\<lambda>_. rec_of 0), used = (\<lambda>_. 0), trace = []\<rparr>"

subsection \<open>The table after a call\<close>

text \<open>
  The table after \<open>request_slot(slot).wait()\<close>, after \<open>write_slot(slot, kmer)\<close> and
  after \<open>read_slot(slot)\<close>, when the slot is located inside a segment.
\<close>

definition probed :: "('k, 'e) HashMap \<Rightarrow> u64 \<Rightarrow> ('k, 'e) HashMap" where
  "probed t slot =
     (let loc = loc_of t slot; c = used t loc
      in t\<lparr>used := (used t)(loc := c + 1),
           trace := trace t @ [Issue (FetchAdd loc c), Wait (FetchAdd loc c)]\<rparr>)"

definition written :: "('k, 'e) HashMap \<Rightarrow> u64 \<Rightarrow> ('k, 'e) kmer_pair \<Rightarrow> ('k, 'e) HashMap" where
  "written t slot km =
     t\<lparr>data := (data t)(loc_of t slot := km), trace := trace t @ [Issue (Put (loc_of t slot))]\<rparr>"

definition got :: "('k, 'e) HashMap \<Rightarrow> u64 \<Rightarrow> ('k, 'e) HashMap" where
  "got t slot = t\<lparr>trace := trace t @ [Issue (Get (loc_of t slot)), Wait (Get (loc_of t slot))]\<rparr>"

text \<open>The events of a run of probes, given the address and the previous value of each.\<close>

definition probe_events :: "(SlotLoc \<times> i32) list \<Rightarrow> event list" where
  "probe_events ps = concat (map (\<lambda>(loc, c). [Issue (FetchAdd loc c), Wait (FetchAdd loc c)]) ps)"

text \<open>The events of a run of reads, given the address of each.\<close>

definition get_events :: "SlotLoc list \<Rightarrow> event list" where
  "get_events locs = concat (map (\<lambda>loc. [Issue (Get loc), Wait (Get loc)]) locs)"

text \<open>
  The candidates that find reads: those before the first one whose stored key matches,
  and that one.
\<close>

definition read_prefix :: "('k, 'e) HashMap \<Rightarrow> 'k \<Rightarrow> u64 list \<Rightarrow> u64 list" where
  "read_prefix t key_kmer xs =
     take (Suc (length (takeWhile (\<lambda>x. kmer (data t (loc_of t x)) \<noteq> key_kmer) xs))) xs"

text \<open>What a run of \<open>request_slot\<close> calls returned, and the table it left.\<close>

definition previous_values :: "('k, 'e) HashMap \<Rightarrow> u64 list \<Rightarrow> i32 list" where
  "previous_values t slots =
     (case request_all t slots of Inl e \<Rightarrow> [] | Inr (prevs, t') \<Rightarrow> prevs)"

definition table_after :: "('k, 'e) HashMap \<Rightarrow> u64 list \<Rightarrow> ('k, 'e) HashMap" where
  "table_after t slots =
     (case request_all t slots of Inl e \<Rightarrow> t | Inr (prevs, t') \<Rightarrow> t')"

text \<open>
  A later state of a table: the calls change the two arrays and the trace, never the
  number of ranks, the slots per rank or the size.
\<close>

definition same_geometry :: "('k, 'e) HashMap \<Rightarrow> ('k, 'e) HashMap \<Rightarrow> bool" where
  "same_geometry t0 t \<longleftrightarrow>
     ranks t = ranks t0 \<and> slots_per_rank t = slots_per_rank t0 \<and> my_size t = my_size t0"

section \<open>Properties\<close>

subsection \<open>Conversions between \<open>int\<close> and \<open>size_t\<close>\<close>

lemma unat_scast_pos:
  fixes x :: i32
  assumes "0 < sint x"
  shows "unat (scast x :: u64) = nat (sint x)"
proof -
  have "sint x < 2 ^ 31"
    using sint_lt [of x] by simp
  then have "sint x < 2 ^ 64"
    by (rule less_trans) simp
  then have "sint x mod 2 ^ LENGTH(64) = sint x"
    using assms by (simp only: len_bit0 len_num1) (simp add: mod_pos_pos_trivial)
  then have "uint (word_of_int (sint x) :: u64) = sint x"
    by (simp only: uint_word_of_int)
  then show ?thesis
    by (simp only: scast_eq unat_eq_nat_uint)
qed

lemma sint_ucast_small:
  fixes w :: u64
  assumes "unat w < 2 ^ 31"
  shows "sint (ucast w :: i32) = int (unat w)"
proof -
  have "int (unat w) < int (2 ^ 31)"
    using assms by (simp only: of_nat_less_iff)
  then have "uint w < 2 ^ 31"
    by simp
  then have "signed_take_bit 31 (uint w) = uint w"
    by (simp add: signed_take_bit_int_eq_self_iff order_trans [of _ 0])
  then show ?thesis
    by (simp add: signed_ucast_eq)
qed

lemma nat_sint_bound:
  fixes x :: i32
  shows "nat (sint x) < 2 ^ 31"
proof -
  have "sint x < 2 ^ 31"
    using sint_lt [of x] by simp
  then show ?thesis
    by (simp add: nat_less_iff)
qed

subsection \<open>The partition of the slots\<close>

lemma loc_of_valid:
  assumes v: "valid t" and s: "slot < my_size t"
  shows "sint (rank (loc_of t slot)) = int (unat slot div nat (sint (slots_per_rank t)))"
    and "sint (offset (loc_of t slot)) = int (unat slot mod nat (sint (slots_per_rank t)))"
    and "unat slot div nat (sint (slots_per_rank t)) < nat (sint (ranks t))"
proof -
  let ?L = "nat (sint (slots_per_rank t))"
  let ?P = "nat (sint (ranks t))"
  have L: "0 < ?L" and cap: "unat (my_size t) \<le> ?P * ?L" and spr: "0 < sint (slots_per_rank t)"
    using v by (simp_all add: valid_def)
  have sc: "unat (scast (slots_per_rank t) :: u64) = ?L"
    using spr by (rule unat_scast_pos)
  have "unat slot < ?P * ?L"
    using s cap by (simp add: word_less_nat_alt)
  then show d: "unat slot div ?L < ?P"
    by (simp add: less_mult_imp_div_less)
  have "unat (slot div scast (slots_per_rank t)) = unat slot div ?L"
    by (simp only: unat_div_distrib sc)
  moreover have "unat slot div ?L < 2 ^ 31"
    using d nat_sint_bound [of "ranks t"] by (rule less_trans)
  ultimately show "sint (rank (loc_of t slot)) = int (unat slot div ?L)"
    by (simp add: loc_of_def sint_ucast_small)
  have "unat (slot mod scast (slots_per_rank t)) = unat slot mod ?L"
    by (simp only: unat_mod_distrib sc)
  moreover have "unat slot mod ?L < 2 ^ 31"
    using L nat_sint_bound [of "slots_per_rank t"] 
    by (meson less_trans mod_less_divisor)
  ultimately show "sint (offset (loc_of t slot)) = int (unat slot mod ?L)"
    by (simp add: loc_of_def sint_ucast_small)
qed

lemma locate_slot_valid:
  assumes "valid t" and "slot < my_size t"
  shows "locate_slot t slot = Inr (loc_of t slot)" and "in_segment t (loc_of t slot)"
proof -
  have "sint (slots_per_rank t) \<noteq> 0"
    using assms(1) by (simp add: valid_def)
  then have "slots_per_rank t \<noteq> 0"
    by auto
  then show "locate_slot t slot = Inr (loc_of t slot)"
    by (simp add: locate_slot_def)
  have L: "0 < nat (sint (slots_per_rank t))"
    using assms(1) by (simp add: valid_def)
  have "int (unat slot div nat (sint (slots_per_rank t))) < sint (ranks t)"
    using loc_of_valid(3) [OF assms] by linarith
  moreover have "unat slot mod nat (sint (slots_per_rank t)) < nat (sint (slots_per_rank t))"
    using L by (rule mod_less_divisor)
  then have "int (unat slot mod nat (sint (slots_per_rank t))) < sint (slots_per_rank t)"
    by linarith
  ultimately show "in_segment t (loc_of t slot)"
    using loc_of_valid(1,2) [OF assms]
    by (simp add: in_segment_def)
qed

lemma loc_of_inj:
  assumes "valid t" and "s1 < my_size t" and "s2 < my_size t"
    and "loc_of t s1 = loc_of t s2"
  shows "s1 = s2"
proof -
  let ?L = "nat (sint (slots_per_rank t))"
  have "int (unat s1 div ?L) = int (unat s2 div ?L)"
    using loc_of_valid(1) [OF assms(1,2)] loc_of_valid(1) [OF assms(1,3)] assms(4) by simp
  moreover have "int (unat s1 mod ?L) = int (unat s2 mod ?L)"
    using loc_of_valid(2) [OF assms(1,2)] loc_of_valid(2) [OF assms(1,3)] assms(4) by simp
  ultimately have "unat s1 = unat s2"
    by (metis div_mult_mod_eq of_nat_eq_iff)
  then show ?thesis
    by (rule word_unat_eq_iff [THEN iffD2])
qed

subsection \<open>A table without slots\<close>

text \<open>
  C10. When \<open>size()\<close> is 0, \<open>find\<close> divides by zero in its first iteration, before
  the loop condition is looked at, whereas \<open>insert\<close> returns false without touching a
  slot: the table, its trace included, is unchanged.
\<close>

theorem find_needs_a_slot:
  assumes "my_size t = 0"
  shows "find_kmer H t key_kmer = Inl DivByZero \<and> insert_kmer H t km = Inr (False, t)"
  using assms by (simp add: find_kmer_def insert_kmer_def find_loop.simps insert_loop.simps)

theorem find_needs_a_slot_witness:
  "my_size (table_of 1 1 0) = 0 \<and>
   find_kmer hash_id (table_of 1 1 0) 5 = Inl DivByZero \<and>
   insert_kmer hash_id (table_of 1 1 0) (rec_of 5) = Inr (False, table_of 1 1 0)"
  using find_needs_a_slot [of "table_of 1 1 0" hash_id 5 "rec_of 5"]
  by (simp add: table_of_def)

subsection \<open>The calls on a valid table\<close>


lemma probed_fields [simp]:
  "ranks (probed t s) = ranks t"
  "slots_per_rank (probed t s) = slots_per_rank t"
  "my_size (probed t s) = my_size t"
  "data (probed t s) = data t"
  "used (probed t s) = (used t)(loc_of t s := used t (loc_of t s) + 1)"
  "trace (probed t s) = trace t @ [Issue (FetchAdd (loc_of t s) (used t (loc_of t s))),
                                   Wait (FetchAdd (loc_of t s) (used t (loc_of t s)))]"
  by (simp_all add: probed_def Let_def)

lemma written_fields [simp]:
  "ranks (written t s km) = ranks t"
  "slots_per_rank (written t s km) = slots_per_rank t"
  "my_size (written t s km) = my_size t"
  "data (written t s km) = (data t)(loc_of t s := km)"
  "used (written t s km) = used t"
  "trace (written t s km) = trace t @ [Issue (Put (loc_of t s))]"
  by (simp_all add: written_def)

lemma loc_of_cong:
  "slots_per_rank t' = slots_per_rank t \<Longrightarrow> loc_of t' = loc_of t"
  by (rule ext) (simp add: loc_of_def)

lemma valid_cong:
  "ranks t' = ranks t \<Longrightarrow> slots_per_rank t' = slots_per_rank t \<Longrightarrow> my_size t' = my_size t \<Longrightarrow>
   valid t' = valid t"
  by (simp add: valid_def)

lemma loc_of_probed [simp]: "loc_of (probed t s) = loc_of t"
  by (rule loc_of_cong) simp

lemma loc_of_written [simp]: "loc_of (written t s km) = loc_of t"
  by (rule loc_of_cong) simp

lemma valid_probed [simp]: "valid (probed t s) = valid t"
  by (rule valid_cong) simp_all

lemma valid_written [simp]: "valid (written t s km) = valid t"
  by (rule valid_cong) simp_all

lemma request_slot_valid:
  assumes "valid t" and "slot < my_size t"
  shows "\<exists>fut t1. request_slot t slot = Inr (fut, t1) \<and>
           wait fut t1 = (used t (loc_of t slot), probed t slot)"
  using locate_slot_valid [OF assms]
  by (simp add: request_slot_def wait_def probed_def Let_def)

lemma write_slot_valid:
  assumes "valid t" and "slot < my_size t"
  shows "write_slot t slot km = Inr (written t slot km)"
  using locate_slot_valid [OF assms]
  by (simp add: write_slot_def written_def)

lemma got_fields [simp]:
  "ranks (got t s) = ranks t"
  "slots_per_rank (got t s) = slots_per_rank t"
  "my_size (got t s) = my_size t"
  "data (got t s) = data t"
  "used (got t s) = used t"
  "trace (got t s) = trace t @ [Issue (Get (loc_of t s)), Wait (Get (loc_of t s))]"
  by (simp_all add: got_def)

lemma loc_of_got [simp]: "loc_of (got t s) = loc_of t"
  by (rule loc_of_cong) simp

lemma valid_got [simp]: "valid (got t s) = valid t"
  by (rule valid_cong) simp_all

lemma read_slot_valid:
  assumes "valid t" and "slot < my_size t"
  shows "read_slot t slot = Inr (data t (loc_of t slot), got t slot)"
  using locate_slot_valid [OF assms]
  by (simp add: read_slot_def wait_def got_def)

lemma insert_spec_step:
  assumes "valid t" and "x < my_size t"
  shows "insert_spec t km (x # xs) =
           (if used t (loc_of t x) = 0 then Inr (True, written (probed t x) x km)
            else insert_spec (probed t x) km xs)"
proof -
  obtain fut t1 where r: "request_slot t x = Inr (fut, t1)"
    and w: "wait fut t1 = (used t (loc_of t x), probed t x)"
    using request_slot_valid [OF assms] by blast
  have "write_slot (probed t x) x km = Inr (written (probed t x) x km)"
    using assms by (intro write_slot_valid) simp_all
  then show ?thesis
    by (simp add: r w)
qed

lemma probe_slots_Cons:
  assumes "probe < capacity"
  shows "probe_slots capacity hash (unat probe) =
           ((hash + probe) mod capacity) # probe_slots capacity hash (unat (probe + 1))"
proof -
  have lt: "unat probe < unat capacity"
    using assms by (simp add: word_less_nat_alt)
  have "probe \<noteq> - 1"
    using assms by auto
  then have "1 + probe \<noteq> 0"
    by (auto simp: add_eq_0_iff)
  then have "unat (1 + probe) = Suc (unat probe)"
    by (rule unatSuc)
  then have "unat (probe + 1) = Suc (unat probe)"
    by (simp only: add.commute)
  then show ?thesis
    using lt by (simp add: probe_slots_def upt_conv_Cons)
qed

lemma probe_slots_Nil:
  assumes "\<not> probe < capacity"
  shows "probe_slots capacity hash (unat probe) = []"
  using assms by (simp add: probe_slots_def word_less_nat_alt)

lemma insert_loop_spec:
  "insert_loop t km hash probe = insert_spec t km (probe_slots (my_size t) hash (unat probe))"
proof (induction t km hash probe rule: insert_loop.induct)
  case (1 t km hash probe)
  show ?case
  proof (cases "probe < my_size t")
    case False
    then show ?thesis
      by (subst insert_loop.simps) (simp add: probe_slots_Nil)
  next
    case True
    let ?slot = "(hash + probe) mod my_size t"
    show ?thesis
    proof (cases "request_slot t ?slot")
      case (Inl e)
      then show ?thesis
        using True by (subst insert_loop.simps) (simp add: probe_slots_Cons)
    next
      case (Inr p)
      obtain fut t1 where p: "p = (fut, t1)"
        by (cases p)
      obtain prev t2 where w: "wait fut t1 = (prev, t2)"
        by (cases "wait fut t1")
      have sz: "my_size t2 = my_size t"
        using Inr p w by (auto simp: request_slot_def wait_def split: sum.splits if_splits future.splits)
      show ?thesis
      proof (cases "prev = 0")
        case True
        then show ?thesis
          using \<open>probe < my_size t\<close> Inr p w
          by (subst insert_loop.simps) (simp add: probe_slots_Cons)
      next
        case False
        have "insert_loop t2 km hash (probe + 1) =
                insert_spec t2 km (probe_slots (my_size t2) hash (unat (probe + 1)))"
          using 1 [OF True refl Inr p [symmetric] w [symmetric] False] .
        then show ?thesis
          using \<open>probe < my_size t\<close> Inr p w False
          by (subst insert_loop.simps) (simp add: probe_slots_Cons sz)
      qed
    qed
  qed
qed

subsection \<open>Insert, probe by probe\<close>

lemma probe_events_simps [simp]:
  "probe_events [] = []"
  "probe_events ((loc, c) # ps) = Issue (FetchAdd loc c) # Wait (FetchAdd loc c) # probe_events ps"
  by (simp_all add: probe_events_def)

lemma insert_spec_total:
  assumes "valid t" and "\<forall>x\<in>set xs. x < my_size t"
  shows "\<exists>b t'. insert_spec t km xs = Inr (b, t') \<and> ranks t' = ranks t \<and>
           slots_per_rank t' = slots_per_rank t \<and> my_size t' = my_size t"
  using assms
proof (induction xs arbitrary: t)
  case Nil
  then show ?case by auto
next
  case (Cons x xs)
  have x: "x < my_size t" and xs: "\<forall>y\<in>set xs. y < my_size (probed t x)"
    using Cons.prems(2) by simp_all
  show ?case
  proof (cases "used t (loc_of t x) = 0")
    case True
    then show ?thesis
      by (auto simp: insert_spec_step [OF Cons.prems(1) x] simp del: insert_spec.simps(2))
  next
    case False
    have "valid (probed t x)"
      using Cons.prems(1) by simp
    from Cons.IH [OF this xs] show ?thesis
      using False by (simp add: insert_spec_step [OF Cons.prems(1) x] del: insert_spec.simps(2))
  qed
qed

lemma insert_spec_trace:
  assumes "valid t" and "\<forall>x\<in>set xs. x < my_size t"
  shows "\<exists>b t' prevs. insert_spec t km xs = Inr (b, t') \<and> length prevs \<le> length xs \<and>
           trace t' = trace t @ probe_events (zip (map (loc_of t) xs) prevs) @
             (if b then [Issue (Put (loc_of t (xs ! (length prevs - 1))))] else []) \<and>
           0 \<notin> set (butlast prevs) \<and> (b \<longleftrightarrow> 0 \<in> set prevs) \<and>
           (b \<longrightarrow> data t' = (data t)(loc_of t (xs ! (length prevs - 1)) := km)) \<and>
           (\<not> b \<longrightarrow> length prevs = length xs \<and> data t' = data t)"
  using assms
proof (induction xs arbitrary: t)
  case Nil
  show ?case
    by (rule exI [of _ False], rule exI [of _ t], rule exI [of _ "[]"]) simp
next
  case (Cons x xs)
  have x: "x < my_size t" and xs: "\<forall>y\<in>set xs. y < my_size (probed t x)"
    using Cons.prems(2) by simp_all
  note step = insert_spec_step [OF Cons.prems(1) x]
  show ?case
  proof (cases "used t (loc_of t x) = 0")
    case True
    show ?thesis
      by (rule exI [of _ True], rule exI [of _ "written (probed t x) x km"], rule exI [of _ "[0]"])
        (simp add: step True del: insert_spec.simps(2))
  next
    case False
    have "valid (probed t x)"
      using Cons.prems(1) by simp
    from Cons.IH [OF this xs] obtain b t' prevs where
      ih: "insert_spec (probed t x) km xs = Inr (b, t') \<and> length prevs \<le> length xs \<and>
           trace t' = trace (probed t x) @ probe_events (zip (map (loc_of (probed t x)) xs) prevs) @
             (if b then [Issue (Put (loc_of (probed t x) (xs ! (length prevs - 1))))] else []) \<and>
           0 \<notin> set (butlast prevs) \<and> (b \<longleftrightarrow> 0 \<in> set prevs) \<and>
           (b \<longrightarrow> data t' = (data (probed t x))(loc_of (probed t x) (xs ! (length prevs - 1)) := km)) \<and>
           (\<not> b \<longrightarrow> length prevs = length xs \<and> data t' = data (probed t x))"
      by blast
    have run: "insert_spec (probed t x) km xs = Inr (b, t')" and len: "length prevs \<le> length xs"
      and nz: "0 \<notin> set (butlast prevs)" and b: "b \<longleftrightarrow> 0 \<in> set prevs"
      using ih by simp_all
    have tr: "trace t' = trace (probed t x) @ probe_events (zip (map (loc_of t) xs) prevs) @
             (if b then [Issue (Put (loc_of t (xs ! (length prevs - 1))))] else [])"
      using ih by simp
    have win: "b \<longrightarrow> data t' = (data t)(loc_of t (xs ! (length prevs - 1)) := km)"
      using ih by simp
    have full: "\<not> b \<longrightarrow> length prevs = length xs \<and> data t' = data t"
      using ih by simp
    let ?c = "used t (loc_of t x)"
    have idx: "b \<Longrightarrow> (x # xs) ! (length (?c # prevs) - 1) = xs ! (length prevs - 1)"
      using b by (cases prevs) simp_all
    show ?thesis
    proof (intro exI [of _ b] exI [of _ t'] exI [of _ "?c # prevs"] conjI)
      show "insert_spec t km (x # xs) = Inr (b, t')"
        using False run by (simp add: step del: insert_spec.simps(2))
      show "length (?c # prevs) \<le> length (x # xs)"
        using len by simp
      show "trace t' = trace t @ probe_events (zip (map (loc_of t) (x # xs)) (?c # prevs)) @
             (if b then [Issue (Put (loc_of t ((x # xs) ! (length (?c # prevs) - 1))))] else [])"
        using tr idx by (cases b) simp_all
      show "0 \<notin> set (butlast (?c # prevs))"
        using nz False by simp
      show "b \<longleftrightarrow> 0 \<in> set (?c # prevs)"
        using b False by auto
      show "b \<longrightarrow> data t' = (data t)(loc_of t ((x # xs) ! (length (?c # prevs) - 1)) := km)"
        using win idx by (cases b) simp_all
      show "\<not> b \<longrightarrow> length (?c # prevs) = length (x # xs) \<and> data t' = data t"
        using full by simp
    qed
  qed
qed

lemma insert_spec_failure:
  assumes "valid t" and "\<forall>x\<in>set xs. x < my_size t" and "insert_spec t km xs = Inr (False, t')"
  shows "data t' = data t \<and>
         (\<forall>loc. used t' loc = used t loc + of_nat (count_list (map (loc_of t) xs) loc))"
  using assms
proof (induction xs arbitrary: t)
  case Nil
  then show ?case by simp
next
  case (Cons x xs)
  have x: "x < my_size t" and xs: "\<forall>y\<in>set xs. y < my_size (probed t x)"
    using Cons.prems(2) by simp_all
  note step = insert_spec_step [OF Cons.prems(1) x]
  have nz: "used t (loc_of t x) \<noteq> 0" and run: "insert_spec (probed t x) km xs = Inr (False, t')"
    using Cons.prems(3) by (auto simp: step simp del: insert_spec.simps(2) split: if_splits)
  have "valid (probed t x)"
    using Cons.prems(1) by simp
  from Cons.IH [OF this xs run] show ?case
    by (auto simp: algebra_simps)
qed

lemma probe_slots_bound:
  assumes "x \<in> set (probe_slots capacity hash n)"
  shows "x < capacity"
proof -
  obtain p where x: "x = (hash + of_nat p) mod capacity" and p: "p < unat capacity"
    using assms unfolding probe_slots_def by auto
  have "capacity \<noteq> 0"
    using p by auto
  then have "0 < capacity"
    by (simp add: word_greater_zero_iff)
  then show ?thesis
    unfolding x by (rule word_mod_less_divisor)
qed

lemma length_probe_slots [simp]:
  "length (probe_slots capacity hash n) = unat capacity - n"
  by (simp add: probe_slots_def)

lemma blocking_probe_events [simp]: "blocking (probe_events ps)"
proof (induction ps)
  case Nil
  show ?case by simp
next
  case (Cons p ps)
  then show ?case by (cases p) simp
qed

lemma get_events_simps [simp]:
  "get_events [] = []"
  "get_events (loc # locs) = Issue (Get loc) # Wait (Get loc) # get_events locs"
  by (simp_all add: get_events_def)

lemma blocking_get_events [simp]: "blocking (get_events locs)"
  by (induction locs) simp_all

lemma read_prefix_Cons:
  "read_prefix t key_kmer (x # xs) =
     (if kmer (data t (loc_of t x)) = key_kmer then [x] else x # read_prefix t key_kmer xs)"
  by (simp add: read_prefix_def)

lemma read_prefix_cong:
  "data t' = data t \<Longrightarrow> slots_per_rank t' = slots_per_rank t \<Longrightarrow>
   read_prefix t' key_kmer xs = read_prefix t key_kmer xs"
  using loc_of_cong [of t' t] by (simp add: read_prefix_def)

subsection \<open>Find, probe by probe\<close>

lemma find_loop_run:
  assumes "valid t" and "probe < my_size t"
  shows "\<exists>b v t'. find_loop t key_kmer hash probe = Inr (b, v, t') \<and>
           (b \<longleftrightarrow> (\<exists>x\<in>set (probe_slots (my_size t) hash (unat probe)).
                    kmer (data t (loc_of t x)) = key_kmer)) \<and>
           (b \<longrightarrow> kmer v = key_kmer) \<and>
           data t' = data t \<and> used t' = used t \<and> ranks t' = ranks t \<and>
           slots_per_rank t' = slots_per_rank t \<and> my_size t' = my_size t \<and>
           trace t' = trace t @ get_events (map (loc_of t)
             (read_prefix t key_kmer (probe_slots (my_size t) hash (unat probe))))"
  using assms
proof (induction t key_kmer hash probe rule: find_loop.induct)
  case (1 t key_kmer hash probe)
  let ?slot = "(hash + probe) mod my_size t"
  let ?v = "data t (loc_of t ?slot)"
  have nz: "my_size t \<noteq> 0"
    using "1.prems"(2) by auto
  then have slot: "?slot < my_size t"
    by (simp add: word_mod_less_divisor word_greater_zero_iff)
  have rd: "read_slot t ?slot = Inr (?v, got t ?slot)"
    using "1.prems"(1) slot by (rule read_slot_valid)
  note cons = probe_slots_Cons [OF "1.prems"(2), of hash]
  show ?case
  proof (cases "kmer ?v = key_kmer")
    case True
    show ?thesis
      by (rule exI [of _ True], rule exI [of _ ?v], rule exI [of _ "got t ?slot"])
        (subst find_loop.simps, simp add: nz rd True cons read_prefix_Cons)
  next
    case False
    show ?thesis
    proof (cases "probe + 1 < my_size t")
      case more: True
      have v: "valid (got t ?slot)" and p: "probe + 1 < my_size (got t ?slot)"
        using "1.prems"(1) more by simp_all
      from "1.IH" [OF nz refl refl rd refl refl _ v p] False more
      obtain b v' t' where
        ih: "find_loop (got t ?slot) key_kmer hash (probe + 1) = Inr (b, v', t') \<and>
           (b \<longleftrightarrow> (\<exists>x\<in>set (probe_slots (my_size (got t ?slot)) hash (unat (probe + 1))).
                    kmer (data (got t ?slot) (loc_of (got t ?slot) x)) = key_kmer)) \<and>
           (b \<longrightarrow> kmer v' = key_kmer) \<and>
           data t' = data (got t ?slot) \<and> used t' = used (got t ?slot) \<and>
           ranks t' = ranks (got t ?slot) \<and>
           slots_per_rank t' = slots_per_rank (got t ?slot) \<and> my_size t' = my_size (got t ?slot) \<and>
           trace t' = trace (got t ?slot) @ get_events (map (loc_of (got t ?slot))
             (read_prefix (got t ?slot) key_kmer
                (probe_slots (my_size (got t ?slot)) hash (unat (probe + 1)))))"
        by blast
      have rp: "read_prefix (got t ?slot) key_kmer xs = read_prefix t key_kmer xs" for xs
        by (rule read_prefix_cong) simp_all
      have run: "find_loop t key_kmer hash probe = Inr (b, v', t')"
        using ih False more by (subst find_loop.simps) (simp add: nz rd)
      show ?thesis
        apply (rule exI [of _ b], rule exI [of _ v'], rule exI [of _ t'])
        using ih False run
        by (simp add: cons read_prefix_Cons rp)
    next
      case last: False
      have nil: "probe_slots (my_size t) hash (unat (probe + 1)) = []"
        using last by (rule probe_slots_Nil)
      show ?thesis
        by (rule exI [of _ False], rule exI [of _ ?v], rule exI [of _ "got t ?slot"])
          (subst find_loop.simps, simp add: nz rd False last cons nil read_prefix_Cons read_prefix_def)
    qed
  qed
qed

lemma new_events_append [simp]:
  "trace t' = trace t @ evs \<Longrightarrow> new_events t t' = evs"
  by (simp add: new_events_def)

lemma insert_kmer_spec:
  "insert_kmer H t km = insert_spec t km (probe_slots (my_size t) (H (kmer km)) 0)"
  using insert_loop_spec [of t km "H (kmer km)" 0] by (simp add: insert_kmer_def)

lemma probe_slots_all_bound:
  "\<forall>x\<in>set (probe_slots capacity hash n). x < capacity"
  using probe_slots_bound by blast

lemma read_prefix_all:
  assumes "\<forall>x\<in>set xs. kmer (data t (loc_of t x)) \<noteq> key_kmer"
  shows "read_prefix t key_kmer xs = xs"
proof -
  have eq: "takeWhile (\<lambda>x. kmer (data t (loc_of t x)) \<noteq> key_kmer) xs = xs"
    using assms by (simp add: takeWhile_eq_all_conv)
  show ?thesis
    unfolding read_prefix_def eq by simp
qed

lemma valid_table_of [simp]: "valid (table_of 1 2 1)"
  by (simp add: valid_def table_of_def)

lemma insert_kmer_trace:
  assumes "valid t"
  shows "\<exists>b t' prevs. insert_kmer H t km = Inr (b, t') \<and>
           length prevs \<le> unat (my_size t) \<and>
           new_events t t' =
             probe_events (zip (map (loc_of t) (probe_slots (my_size t) (H (kmer km)) 0)) prevs) @
             (if b then [Issue (Put (loc_of t
                (probe_slots (my_size t) (H (kmer km)) 0 ! (length prevs - 1))))] else []) \<and>
           0 \<notin> set (butlast prevs) \<and> (b \<longleftrightarrow> 0 \<in> set prevs) \<and>
           (b \<longrightarrow> data t' = (data t)
              (loc_of t (probe_slots (my_size t) (H (kmer km)) 0 ! (length prevs - 1)) := km)) \<and>
           (\<not> b \<longrightarrow> length prevs = unat (my_size t) \<and> data t' = data t)"
proof -
  let ?xs = "probe_slots (my_size t) (H (kmer km)) 0"
  from insert_spec_trace [where xs = ?xs and km = km, OF assms probe_slots_all_bound]
  obtain b t' prevs where
    run: "insert_spec t km ?xs = Inr (b, t')" and len: "length prevs \<le> length ?xs"
    and tr: "trace t' = trace t @ (probe_events (zip (map (loc_of t) ?xs) prevs) @
             (if b then [Issue (Put (loc_of t (?xs ! (length prevs - 1))))] else []))"
    and rest: "0 \<notin> set (butlast prevs)" "b \<longleftrightarrow> 0 \<in> set prevs"
      "b \<longrightarrow> data t' = (data t)(loc_of t (?xs ! (length prevs - 1)) := km)"
      "\<not> b \<longrightarrow> length prevs = length ?xs \<and> data t' = data t"
    by auto
  show ?thesis
    apply (rule exI [of _ b], rule exI [of _ t'], rule exI [of _ prevs])
    using run len new_events_append [OF tr] rest
    by (simp add: insert_kmer_spec)
qed

lemma find_kmer_run:
  assumes "valid t" and "my_size t \<noteq> 0"
  shows "\<exists>b v t'. find_kmer H t key_kmer = Inr (b, v, t') \<and>
           (b \<longleftrightarrow> (\<exists>x\<in>set (probe_slots (my_size t) (H key_kmer) 0).
                    kmer (data t (loc_of t x)) = key_kmer)) \<and>
           (b \<longrightarrow> kmer v = key_kmer) \<and>
           data t' = data t \<and> used t' = used t \<and> ranks t' = ranks t \<and>
           slots_per_rank t' = slots_per_rank t \<and> my_size t' = my_size t \<and>
           trace t' = trace t @ get_events (map (loc_of t)
             (read_prefix t key_kmer (probe_slots (my_size t) (H key_kmer) 0)))"
proof -
  have "0 < my_size t"
    using assms(2) by (simp add: word_greater_zero_iff)
  from find_loop_run [OF assms(1) this, of key_kmer "H key_kmer"] show ?thesis
    by (simp add: find_kmer_def)
qed

subsection \<open>Which handles are waited on\<close>

text \<open>
  C4, as the code has it. On a valid table, every fetch-add that \<open>insert\<close> issues and
  every read that \<open>find\<close> issues is waited on before the next operation is issued.
  The write of the record is the exception: \<open>write_slot\<close> discards the future of
  \<open>rput\<close>, so a successful \<open>insert\<close> ends with a write that nothing waits on.
\<close>

theorem reads_and_claims_waited:
  assumes "valid t"
  shows "(\<exists>b t' evs loc. insert_kmer H t km = Inr (b, t') \<and> blocking evs \<and>
            new_events t t' = evs @ (if b then [Issue (Put loc)] else [])) \<and>
         (my_size t \<noteq> 0 \<longrightarrow>
            (\<exists>b v t'. find_kmer H t key_kmer = Inr (b, v, t') \<and> blocking (new_events t t')))"
proof (rule conjI)
  from insert_kmer_trace [OF assms, of H km] obtain b t' prevs where
    run: "insert_kmer H t km = Inr (b, t')"
    and tr: "new_events t t' =
             probe_events (zip (map (loc_of t) (probe_slots (my_size t) (H (kmer km)) 0)) prevs) @
             (if b then [Issue (Put (loc_of t
                (probe_slots (my_size t) (H (kmer km)) 0 ! (length prevs - 1))))] else [])"
    by blast
  show "\<exists>b t' evs loc. insert_kmer H t km = Inr (b, t') \<and> blocking evs \<and>
            new_events t t' = evs @ (if b then [Issue (Put loc)] else [])"
    using run tr blocking_probe_events by blast
next
  show "my_size t \<noteq> 0 \<longrightarrow>
          (\<exists>b v t'. find_kmer H t key_kmer = Inr (b, v, t') \<and> blocking (new_events t t'))"
  proof (cases "my_size t = 0")
    case True
    then show ?thesis by simp
  next
    case False
    from find_kmer_run [OF assms False, of H key_kmer] obtain b v t' where
      "find_kmer H t key_kmer = Inr (b, v, t')"
      and "trace t' = trace t @ get_events (map (loc_of t)
             (read_prefix t key_kmer (probe_slots (my_size t) (H key_kmer) 0)))"
      by blast
    then show ?thesis
      by (auto simp: new_events_append)
  qed
qed

lemma probe_slots_one [simp]: "probe_slots 1 hash 0 = [0]"
  by (simp add: probe_slots_def)

lemma loc_of_zero [simp]: "loc_of t 0 = \<lparr>rank = 0, offset = 0\<rparr>"
  by (simp add: loc_of_def)

lemma table_of_fields [simp]:
  "ranks (table_of nranks spr capacity) = nranks"
  "slots_per_rank (table_of nranks spr capacity) = spr"
  "my_size (table_of nranks spr capacity) = capacity"
  "data (table_of nranks spr capacity) loc = rec_of 0"
  "used (table_of nranks spr capacity) loc = 0"
  "trace (table_of nranks spr capacity) = []"
  by (simp_all add: table_of_def)

theorem reads_and_claims_waited_witness:
  "valid (table_of 1 2 1) \<and>
   (\<exists>b t' evs loc. insert_kmer hash_id (table_of 1 2 1) (rec_of 5) = Inr (b, t') \<and>
      blocking evs \<and>
      new_events (table_of 1 2 1) t' = evs @ (if b then [Issue (Put loc)] else [])) \<and>
   my_size (table_of 1 2 1) \<noteq> 0 \<and>
   (\<exists>b v t'. find_kmer hash_id (table_of 1 2 1) 5 = Inr (b, v, t') \<and>
      blocking (new_events (table_of 1 2 1) t'))"
  using reads_and_claims_waited [OF valid_table_of, of hash_id "rec_of 5" 5]
  by simp

text \<open>
  C4 as stated fails: the insert of one record into a fresh table of one slot returns
  success with the write issued last and never waited on.
\<close>

theorem insert_returns_before_write_completes:
  "insert_kmer hash_id (table_of 1 2 1) (rec_of 5) =
     Inr (True, written (probed (table_of 1 2 1) 0) 0 (rec_of 5)) \<and>
   new_events (table_of 1 2 1) (written (probed (table_of 1 2 1) 0) 0 (rec_of 5)) =
     [Issue (FetchAdd \<lparr>rank = 0, offset = 0\<rparr> 0), Wait (FetchAdd \<lparr>rank = 0, offset = 0\<rparr> 0),
      Issue (Put \<lparr>rank = 0, offset = 0\<rparr>)] \<and>
   \<not> blocking (new_events (table_of 1 2 1) (written (probed (table_of 1 2 1) 0) 0 (rec_of 5)))"
proof -
  have "insert_kmer hash_id (table_of 1 2 1) (rec_of 5) =
     Inr (True, written (probed (table_of 1 2 1) 0) 0 (rec_of 5))"
    by (simp add: insert_kmer_spec insert_spec_step del: insert_spec.simps(2))
  moreover have "new_events (table_of 1 2 1) (written (probed (table_of 1 2 1) 0) 0 (rec_of 5)) =
     [Issue (FetchAdd \<lparr>rank = 0, offset = 0\<rparr> 0), Wait (FetchAdd \<lparr>rank = 0, offset = 0\<rparr> 0),
      Issue (Put \<lparr>rank = 0, offset = 0\<rparr>)]"
    by (simp add: new_events_def)
  ultimately show ?thesis
    by simp
qed

subsection \<open>The constructor\<close>

lemma slots_per_rank_fits:
  fixes nranks :: i32 and capacity :: u64
  assumes P: "0 < sint nranks" and fits: "unat capacity div nat (sint nranks) + 1 < 2 ^ 31"
  shows "sint (ucast (capacity div scast nranks + 1) :: i32) =
           int (unat capacity div nat (sint nranks) + 1)"
proof -
  let ?q = "capacity div scast nranks"
  have q: "unat ?q = unat capacity div nat (sint nranks)"
    by (simp only: unat_div_distrib unat_scast_pos [OF P])
  have "unat ?q + unat (1 :: u64) < 2 ^ 31"
    using fits by (simp add: q)
  also have "(2 :: nat) ^ 31 < 2 ^ LENGTH(64)"
    by simp
  finally have "unat (?q + 1) = unat ?q + unat (1 :: u64)"
    by (simp only: unat_add_lem)
  then have u: "unat (?q + 1) = unat capacity div nat (sint nranks) + 1"
    by (simp add: q)
  then have "unat (?q + 1) < 2 ^ 31"
    using fits by simp
  then have "sint (ucast (?q + 1) :: i32) = int (unat (?q + 1))"
    by (rule sint_ucast_small)
  then show ?thesis
    by (simp only: u)
qed

lemma HashMap_new_fits:
  assumes P: "0 < sint nranks" and fits: "unat capacity div nat (sint nranks) + 1 < 2 ^ 31"
  shows "\<exists>t. HashMap_new nranks capacity d0 = Inr t \<and> valid t \<and> ranks t = nranks \<and>
           my_size t = capacity \<and> data t = d0 \<and> used t = (\<lambda>_. 0) \<and> trace t = [] \<and>
           sint (slots_per_rank t) = int (unat capacity div nat (sint nranks)) + 1"
proof -
  let ?spr = "ucast (capacity div scast nranks + 1) :: i32"
  let ?t = "\<lparr>ranks = nranks, slots_per_rank = ?spr, my_size = capacity,
             data = d0, used = (\<lambda>_. 0), trace = []\<rparr>"
  have spr: "sint ?spr = int (unat capacity div nat (sint nranks) + 1)"
    using assms by (rule slots_per_rank_fits)
  have "nranks \<noteq> 0"
    using P by auto
  then have new: "HashMap_new nranks capacity d0 = Inr ?t"
    using spr by (simp add: HashMap_new_def Let_def)
  have "unat capacity < nat (sint nranks) + nat (sint nranks) * (unat capacity div nat (sint nranks))"
    using P by (intro dividend_less_times_div) simp
  then have "unat capacity \<le> nat (sint nranks) * (unat capacity div nat (sint nranks) + 1)"
    by simp
  then have "valid ?t"
    using P spr by (simp add: valid_def nat_add_distrib)
  then show ?thesis
    using new spr by simp
qed

lemma locate_slot_cong:
  "slots_per_rank t' = slots_per_rank t \<Longrightarrow> locate_slot t' slot = locate_slot t slot"
  using loc_of_cong [of t' t] by (simp add: locate_slot_def)

lemma insert_kmer_total:
  assumes "valid t"
  shows "\<exists>res. insert_kmer H t km = Inr res"
  using insert_kmer_trace [OF assms, of H km] by blast

lemma find_kmer_total:
  assumes "valid t" and "my_size t \<noteq> 0"
  shows "\<exists>res. find_kmer H t key_kmer = Inr res"
  using find_kmer_run [OF assms, of H key_kmer] by blast

subsection \<open>The partition map\<close>

text \<open>
  C7, for the capacities the \<open>int\<close> field can hold. When there is at least one rank and
  \<open>capacity / ranks + 1\<close> is below \<open>2^31\<close>, the constructor returns a table whose
  \<open>slots_per_rank\<close> is \<open>capacity / ranks + 1\<close>, whatever the initial memory: every
  participant computes the same value. \<open>locate_slot\<close> depends on nothing but that
  field and the slot, returns no new state, and for a slot below the capacity gives
  \<open>rank = slot / slots_per_rank\<close> and \<open>offset = slot % slots_per_rank\<close>. The ranks
  together own at least \<open>capacity\<close> slots.
\<close>

theorem partition_map:
  fixes d0 :: "SlotLoc \<Rightarrow> ('k, 'e) kmer_pair"
  assumes "0 < sint nranks" and "unat capacity div nat (sint nranks) + 1 < 2 ^ 31"
  shows "\<exists>t. HashMap_new nranks capacity d0 = Inr t \<and>
           sint (slots_per_rank t) = int (unat capacity div nat (sint nranks)) + 1 \<and>
           (\<forall>slot (t' :: ('k, 'e) HashMap). slot < capacity \<and> slots_per_rank t' = slots_per_rank t \<longrightarrow>
              (\<exists>loc. locate_slot t' slot = Inr loc \<and>
                 sint (rank loc) = int (unat slot div nat (sint (slots_per_rank t))) \<and>
                 sint (offset loc) = int (unat slot mod nat (sint (slots_per_rank t))))) \<and>
           unat capacity \<le> nat (sint nranks) * nat (sint (slots_per_rank t))"
proof -
  from HashMap_new_fits [OF assms, of d0] obtain t where
    new: "HashMap_new nranks capacity d0 = Inr t" and v: "valid t" and r: "ranks t = nranks"
    and c: "my_size t = capacity"
    and spr: "sint (slots_per_rank t) = int (unat capacity div nat (sint nranks)) + 1"
    by blast
  have "\<exists>loc. locate_slot t' slot = Inr loc \<and>
          sint (rank loc) = int (unat slot div nat (sint (slots_per_rank t))) \<and>
          sint (offset loc) = int (unat slot mod nat (sint (slots_per_rank t)))"
    if "slot < capacity" and "slots_per_rank t' = slots_per_rank t" for slot and t' :: "('k, 'e) HashMap"
  proof -
    have s: "slot < my_size t"
      using that c by simp
    have "locate_slot t' slot = Inr (loc_of t slot)"
      using locate_slot_cong [OF that(2)] locate_slot_valid(1) [OF v s] by simp
    then show ?thesis
      using loc_of_valid(1,2) [OF v s] by simp
  qed
  moreover have "unat capacity \<le> nat (sint nranks) * nat (sint (slots_per_rank t))"
    using v r c by (simp add: valid_def)
  ultimately show ?thesis
    using new spr by (intro exI [of _ t]) simp
qed

theorem partition_map_witness:
  "0 < sint (2 :: i32) \<and> unat (8 :: u64) div nat (sint (2 :: i32)) + 1 < 2 ^ 31 \<and>
   (\<exists>t. HashMap_new 2 8 (\<lambda>_. rec_of 0) = Inr t \<and>
      sint (slots_per_rank t) = int (unat (8 :: u64) div nat (sint (2 :: i32))) + 1 \<and>
      (\<forall>slot t'. slot < 8 \<and> slots_per_rank t' = slots_per_rank t \<longrightarrow>
         (\<exists>loc. locate_slot (t' :: (nat, nat) HashMap) slot = Inr loc \<and>
            sint (rank loc) = int (unat slot div nat (sint (slots_per_rank t))) \<and>
            sint (offset loc) = int (unat slot mod nat (sint (slots_per_rank t))))) \<and>
      unat (8 :: u64) \<le> nat (sint (2 :: i32)) * nat (sint (slots_per_rank t)))"
proof -
  have a: "0 < sint (2 :: i32)" and b: "unat (8 :: u64) div nat (sint (2 :: i32)) + 1 < 2 ^ 31"
    by simp_all
  show ?thesis
    using a b partition_map [OF a b, of "\<lambda>_. rec_of 0"] by blast
qed

text \<open>
  C7 as stated fails for a large capacity: with one rank and \<open>2^32 + 4\<close> slots the
  \<open>int\<close> field keeps the low 32 bits of \<open>2^32 + 5\<close>, so \<open>slots_per_rank\<close> is 5, not
  \<open>capacity / ranks + 1\<close>, and the single rank owns fewer slots than the capacity.
\<close>

theorem slots_per_rank_truncated:
  "HashMap_new 1 4294967300 (data (table_of 1 5 4294967300)) = Inr (table_of 1 5 4294967300) \<and>
   sint (slots_per_rank (table_of 1 5 4294967300)) = 5 \<and>
   int (unat (4294967300 :: u64) div nat (sint (1 :: i32))) + 1 = 4294967301 \<and>
   nat (sint (ranks (table_of 1 5 4294967300))) * nat (sint (slots_per_rank (table_of 1 5 4294967300)))
     < unat (my_size (table_of 1 5 4294967300))"
  by (simp add: HashMap_new_def table_of_def)

subsection \<open>Addresses stay inside the segments\<close>

text \<open>
  C9, for the capacities the \<open>int\<close> field can hold. When there is at least one rank and
  \<open>capacity / ranks + 1\<close> is below \<open>2^31\<close>, then in the table the constructor returns,
  and in every later state of it (the same \<open>ranks\<close>, \<open>slots_per_rank\<close> and size),
  every slot below the capacity is located at a rank in \<open>[0, ranks)\<close> and an offset in
  \<open>[0, slots_per_rank)\<close>, and \<open>insert\<close> and \<open>find\<close> return without an access outside
  the allocated arrays.
\<close>

theorem located_inside_segment:
  fixes d0 :: "SlotLoc \<Rightarrow> ('k, 'e) kmer_pair"
  assumes "0 < sint nranks" and "unat capacity div nat (sint nranks) + 1 < 2 ^ 31"
    and "slot < capacity"
  shows "\<exists>t. HashMap_new nranks capacity d0 = Inr t \<and>
           (\<forall>t' :: ('k, 'e) HashMap.
              ranks t' = ranks t \<and> slots_per_rank t' = slots_per_rank t \<and> my_size t' = my_size t \<longrightarrow>
              (\<exists>loc. locate_slot t' slot = Inr loc \<and>
                 0 \<le> sint (rank loc) \<and> sint (rank loc) < sint nranks \<and>
                 0 \<le> sint (offset loc) \<and> sint (offset loc) < sint (slots_per_rank t)) \<and>
              (\<exists>res. insert_kmer H t' km = Inr res) \<and>
              (\<exists>res. find_kmer H t' key_kmer = Inr res))"
proof -
  from HashMap_new_fits [OF assms(1,2), of d0] obtain t where
    new: "HashMap_new nranks capacity d0 = Inr t" and v: "valid t" and r: "ranks t = nranks"
    and c: "my_size t = capacity"
    by blast
  have "(\<exists>loc. locate_slot t' slot = Inr loc \<and>
           0 \<le> sint (rank loc) \<and> sint (rank loc) < sint nranks \<and>
           0 \<le> sint (offset loc) \<and> sint (offset loc) < sint (slots_per_rank t)) \<and>
        (\<exists>res. insert_kmer H t' km = Inr res) \<and>
        (\<exists>res. find_kmer H t' key_kmer = Inr res)"
    if same: "ranks t' = ranks t \<and> slots_per_rank t' = slots_per_rank t \<and> my_size t' = my_size t"
    for t' :: "('k, 'e) HashMap"
  proof -
    have v': "valid t'"
      using same v by (simp add: valid_def)
    have s: "slot < my_size t'"
      using same c assms(3) by simp
    then have nz: "my_size t' \<noteq> 0"
      by auto
    have "in_segment t' (loc_of t' slot)"
      using v' s by (rule locate_slot_valid(2))
    then show ?thesis
      using locate_slot_valid(1) [OF v' s] insert_kmer_total [OF v', of H km]
        find_kmer_total [OF v' nz, of H key_kmer] same r
      by (simp add: in_segment_def)
  qed
  then show ?thesis
    using new by (intro exI [of _ t]) simp
qed

theorem located_inside_segment_witness:
  "0 < sint (2 :: i32) \<and> unat (8 :: u64) div nat (sint (2 :: i32)) + 1 < 2 ^ 31 \<and>
   (7 :: u64) < 8 \<and>
   (\<exists>t. HashMap_new 2 8 (\<lambda>_. rec_of 0) = Inr t \<and>
      (\<forall>t' :: (nat, nat) HashMap.
         ranks t' = ranks t \<and> slots_per_rank t' = slots_per_rank t \<and> my_size t' = my_size t \<longrightarrow>
         (\<exists>loc. locate_slot t' 7 = Inr loc \<and>
            0 \<le> sint (rank loc) \<and> sint (rank loc) < sint (2 :: i32) \<and>
            0 \<le> sint (offset loc) \<and> sint (offset loc) < sint (slots_per_rank t)) \<and>
         (\<exists>res. insert_kmer hash_id t' (rec_of 5) = Inr res) \<and>
         (\<exists>res. find_kmer hash_id t' 5 = Inr res)))"
proof -
  have a: "0 < sint (2 :: i32)" and b: "unat (8 :: u64) div nat (sint (2 :: i32)) + 1 < 2 ^ 31"
    and c: "(7 :: u64) < 8"
    by simp_all
  show ?thesis
    using a b c located_inside_segment [OF a b c, of "\<lambda>_. rec_of 0" hash_id "rec_of 5" 5]
    by blast
qed

text \<open>
  C9 as stated fails for a large capacity: with one rank and \<open>2^32 + 4\<close> slots the
  constructor succeeds with \<open>slots_per_rank = 5\<close>; slot 10 is below the capacity and
  is located at rank 2, which does not exist, and the insert of a record whose hash
  is 10 accesses the counter array there.
\<close>

theorem located_outside_segment:
  "HashMap_new 1 4294967300 (data (table_of 1 5 4294967300)) = Inr (table_of 1 5 4294967300) \<and>
   10 < my_size (table_of 1 5 4294967300) \<and>
   locate_slot (table_of 1 5 4294967300) 10 = Inr \<lparr>rank = 2, offset = 0\<rparr> \<and>
   \<not> in_segment (table_of 1 5 4294967300) \<lparr>rank = 2, offset = 0\<rparr> \<and>
   insert_kmer hash_id (table_of 1 5 4294967300) (rec_of 10) = Inl OutOfBounds"
proof -
  have "HashMap_new 1 4294967300 (data (table_of 1 5 4294967300)) = Inr (table_of 1 5 4294967300)"
    by (simp add: HashMap_new_def table_of_def)
  moreover have loc: "locate_slot (table_of 1 5 4294967300) 10 = Inr \<lparr>rank = 2, offset = 0\<rparr>"
    by (simp add: locate_slot_def loc_of_def)
  moreover have out: "\<not> in_segment (table_of 1 5 4294967300) \<lparr>rank = 2, offset = 0\<rparr>"
    by (simp add: in_segment_def)
  moreover have "insert_kmer hash_id (table_of 1 5 4294967300) (rec_of 10) = Inl OutOfBounds"
    using loc out
    by (simp add: insert_kmer_def insert_loop.simps [of _ _ _ 0] request_slot_def hash_id_def rec_of_def)
  ultimately show ?thesis
    by simp
qed

subsection \<open>Runs of fetch-adds\<close>

lemma unat_add_of_nat:
  fixes c :: i32
  assumes "unat c + k < 2 ^ 32"
  shows "unat (c + of_nat k) = unat c + k"
proof -
  have k: "unat (of_nat k :: i32) = k"
    using assms by (simp add: unat_of_nat)
  have "unat c + unat (of_nat k :: i32) < 2 ^ LENGTH(32)"
    using assms by (simp add: k)
  then have "unat (c + of_nat k) = unat c + unat (of_nat k :: i32)"
    by (simp only: unat_add_lem)
  then show ?thesis
    by (simp only: k)
qed

lemma counter_stays_claimed:
  fixes c :: i32
  assumes "c \<noteq> 0" and "unat c + k < 2 ^ 32"
  shows "c + of_nat k \<noteq> 0"
proof
  assume "c + of_nat k = 0"
  then have "unat (c + of_nat k) = 0"
    by simp
  then have "unat c = 0"
    using unat_add_of_nat [OF assms(2)] by simp
  then show False
    using assms(1) by (simp add: unat_eq_zero)
qed

lemma request_all_run:
  assumes "valid t" and "\<forall>x\<in>set slots. x < my_size t"
  shows "\<exists>prevs t'. request_all t slots = Inr (prevs, t') \<and> length prevs = length slots \<and>
           ranks t' = ranks t \<and> slots_per_rank t' = slots_per_rank t \<and>
           my_size t' = my_size t \<and> data t' = data t \<and>
           (\<forall>loc. used t' loc = used t loc + of_nat (count_list (map (loc_of t) slots) loc)) \<and>
           (\<forall>i<length slots. prevs ! i = used t (loc_of t (slots ! i)) +
               of_nat (count_list (take i (map (loc_of t) slots)) (loc_of t (slots ! i))))"
  using assms
proof (induction slots arbitrary: t)
  case Nil
  then show ?case by simp
next
  case (Cons x xs)
  have x: "x < my_size t" and xs: "\<forall>y\<in>set xs. y < my_size (probed t x)"
    using Cons.prems(2) by simp_all
  obtain fut t1 where r: "request_slot t x = Inr (fut, t1)"
    and w: "wait fut t1 = (used t (loc_of t x), probed t x)"
    using request_slot_valid [OF Cons.prems(1) x] by blast
  have "valid (probed t x)"
    using Cons.prems(1) by simp
  from Cons.IH [OF this xs] obtain prevs t' where
    ih: "request_all (probed t x) xs = Inr (prevs, t') \<and> length prevs = length xs \<and>
           ranks t' = ranks (probed t x) \<and> slots_per_rank t' = slots_per_rank (probed t x) \<and>
           my_size t' = my_size (probed t x) \<and> data t' = data (probed t x) \<and>
           (\<forall>loc. used t' loc = used (probed t x) loc +
               of_nat (count_list (map (loc_of (probed t x)) xs) loc)) \<and>
           (\<forall>i<length xs. prevs ! i = used (probed t x) (loc_of (probed t x) (xs ! i)) +
               of_nat (count_list (take i (map (loc_of (probed t x)) xs))
                 (loc_of (probed t x) (xs ! i))))"
    by blast
  let ?c = "used t (loc_of t x)"
  show ?case
  proof (intro exI [of _ "?c # prevs"] exI [of _ t'] conjI allI impI)
    show "request_all t (x # xs) = Inr (?c # prevs, t')"
      using ih by (simp add: r w)
    show "length (?c # prevs) = length (x # xs)"
      using ih by simp
    show "ranks t' = ranks t" "slots_per_rank t' = slots_per_rank t"
      "my_size t' = my_size t" "data t' = data t"
      using ih by simp_all
    show "used t' loc = used t loc + of_nat (count_list (map (loc_of t) (x # xs)) loc)" for loc
      using ih by simp
  next
    fix i
    assume i: "i < length (x # xs)"
    show "(?c # prevs) ! i = used t (loc_of t ((x # xs) ! i)) +
            of_nat (count_list (take i (map (loc_of t) (x # xs))) (loc_of t ((x # xs) ! i)))"
    proof (cases i)
      case 0
      then show ?thesis by simp
    next
      case (Suc j)
      then have "j < length xs"
        using i by simp
      then have "prevs ! j = used (probed t x) (loc_of t (xs ! j)) +
               of_nat (count_list (take j (map (loc_of t) xs)) (loc_of t (xs ! j)))"
        using ih by simp
      then show ?thesis
        using Suc by simp
    qed
  qed
qed

lemma previous_values_run:
  assumes "valid t" and "\<forall>x\<in>set slots. x < my_size t" and "i < length slots"
  shows "previous_values t slots ! i = used t (loc_of t (slots ! i)) +
           of_nat (count_list (take i (map (loc_of t) slots)) (loc_of t (slots ! i)))"
  using request_all_run [OF assms(1,2)] assms(3)
  by (auto simp: previous_values_def)

lemma table_after_run:
  assumes "valid t" and "\<forall>x\<in>set slots. x < my_size t"
  shows "valid (table_after t slots)" and "my_size (table_after t slots) = my_size t"
    and "slots_per_rank (table_after t slots) = slots_per_rank t"
    and "data (table_after t slots) = data t"
    and "used (table_after t slots) loc =
           used t loc + of_nat (count_list (map (loc_of t) slots) loc)"
proof -
  from request_all_run [OF assms] obtain prevs t' where
    run: "request_all t slots = Inr (prevs, t')"
    and same: "ranks t' = ranks t" "slots_per_rank t' = slots_per_rank t" "my_size t' = my_size t"
    and d: "data t' = data t"
    and u: "\<forall>loc. used t' loc = used t loc + of_nat (count_list (map (loc_of t) slots) loc)"
    by blast
  have t': "table_after t slots = t'"
    using run by (simp add: table_after_def)
  show "valid (table_after t slots)"
    using assms(1) same by (simp add: t' valid_def)
  show "my_size (table_after t slots) = my_size t"
    "slots_per_rank (table_after t slots) = slots_per_rank t"
    "data (table_after t slots) = data t"
    using same d by (simp_all add: t')
  show "used (table_after t slots) loc =
           used t loc + of_nat (count_list (map (loc_of t) slots) loc)"
    using u by (simp add: t')
qed

lemma count_list_replicate [simp]: "count_list (replicate n x) x = n"
  by (induction n) simp_all

lemma insert_spec_failure_claimed:
  assumes "valid t" and "\<forall>x\<in>set xs. x < my_size t" and "insert_spec t km xs = Inr (False, t')"
  shows "\<forall>x\<in>set xs. used t (loc_of t x) \<noteq> 0"
  using assms
proof (induction xs arbitrary: t)
  case Nil
  then show ?case by simp
next
  case (Cons x xs)
  have x: "x < my_size t" and xs: "\<forall>y\<in>set xs. y < my_size (probed t x)"
    using Cons.prems(2) by simp_all
  note step = insert_spec_step [OF Cons.prems(1) x]
  have nz: "used t (loc_of t x) \<noteq> 0" and run: "insert_spec (probed t x) km xs = Inr (False, t')"
    using Cons.prems(3) by (auto simp: step simp del: insert_spec.simps(2) split: if_splits)
  have "valid (probed t x)"
    using Cons.prems(1) by simp
  from Cons.IH [OF this xs run]
  have ih: "\<forall>y\<in>set xs. used (probed t x) (loc_of (probed t x) y) \<noteq> 0" .
  have "used t (loc_of t y) \<noteq> 0" if "y \<in> set xs" for y
  proof (cases "loc_of t y = loc_of t x")
    case True
    then show ?thesis
      using nz by simp
  next
    case False
    have "used (probed t x) (loc_of (probed t x) y) \<noteq> 0"
      using ih that by blast
    then show ?thesis
      using False by simp
  qed
  then show ?case
    using nz by simp
qed

lemma failed_insert_valid:
  assumes "valid t" and "insert_kmer H t km = Inr (False, t')"
  shows "data t' = data t \<and>
         (\<forall>loc. used t' loc = used t loc +
            of_nat (count_list (map (loc_of t) (probe_slots (my_size t) (H (kmer km)) 0)) loc)) \<and>
         (\<forall>loc. unat (used t loc) +
              count_list (map (loc_of t) (probe_slots (my_size t) (H (kmer km)) 0)) loc < 2 ^ 32 \<longrightarrow>
            (used t' loc = 0 \<longleftrightarrow> used t loc = 0))"
proof -
  let ?xs = "probe_slots (my_size t) (H (kmer km)) 0"
  have run: "insert_spec t km ?xs = Inr (False, t')"
    using assms(2) by (simp add: insert_kmer_spec)
  note f = insert_spec_failure [OF assms(1) probe_slots_all_bound run]
  note c = insert_spec_failure_claimed [OF assms(1) probe_slots_all_bound run]
  have "used t' loc = 0 \<longleftrightarrow> used t loc = 0"
    if "unat (used t loc) + count_list (map (loc_of t) ?xs) loc < 2 ^ 32" for loc
  proof (cases "used t loc = 0")
    case True
    then have "loc \<notin> set (map (loc_of t) ?xs)"
      using c by auto
    then have "count_list (map (loc_of t) ?xs) loc = 0"
      by simp
    then show ?thesis
      using f True by simp
  next
    case False
    then have "used t loc + of_nat (count_list (map (loc_of t) ?xs) loc) \<noteq> 0"
      using that by (rule counter_stays_claimed)
    then show ?thesis
      using f False by simp
  qed
  then show ?thesis
    using f by blast
qed

subsection \<open>The states of a constructed table\<close>

lemma state_valid:
  assumes "0 < sint nranks" and "unat capacity div nat (sint nranks) + 1 < 2 ^ 31"
    and "HashMap_new nranks capacity d0 = Inr t0" and "same_geometry t0 t"
  shows "valid t" and "my_size t = capacity" and "ranks t = nranks"
proof -
  from HashMap_new_fits [OF assms(1,2), of d0] obtain t1 where
    "HashMap_new nranks capacity d0 = Inr t1" and "valid t1" and "ranks t1 = nranks"
    and "my_size t1 = capacity"
    by blast
  then have t0: "valid t0" "ranks t0 = nranks" "my_size t0 = capacity"
    using assms(3) by simp_all
  show "valid t"
    using t0(1) assms(4) by (simp add: valid_def same_geometry_def)
  show "my_size t = capacity" "ranks t = nranks"
    using t0(2,3) assms(4) by (simp_all add: same_geometry_def)
qed

lemma same_geometry_refl [simp]: "same_geometry t t"
  by (simp add: same_geometry_def)

lemma probe_slots_nth:
  assumes "i < unat capacity"
  shows "probe_slots capacity hash 0 ! i = (hash + of_nat i) mod capacity"
    and "unat (probe_slots capacity hash 0 ! i) = (unat hash + i) mod 2 ^ 64 mod unat capacity"
proof -
  show nth: "probe_slots capacity hash 0 ! i = (hash + of_nat i) mod capacity"
    using assms by (simp add: probe_slots_def)
  have "unat capacity < 2 ^ LENGTH(64)"
    by (rule unsigned_less)
  then have "i < 2 ^ 64"
    using assms by simp
  then have i: "unat (of_nat i :: u64) = i"
    by (simp add: unat_of_nat)
  have "unat (hash + of_nat i) = (unat hash + unat (of_nat i :: u64)) mod 2 ^ LENGTH(64)"
    by (rule unat_word_ariths(1))
  then have "unat (hash + of_nat i) = (unat hash + i) mod 2 ^ 64"
    by (simp add: i)
  then show "unat (probe_slots capacity hash 0 ! i) = (unat hash + i) mod 2 ^ 64 mod unat capacity"
    by (simp only: nth unat_mod_distrib)
qed

subsection \<open>Insert, with the counters\<close>

lemma insert_spec_run:
  assumes "valid t" and "\<forall>x\<in>set xs. x < my_size t"
  shows "\<exists>b t' prevs. insert_spec t km xs = Inr (b, t') \<and> length prevs \<le> length xs \<and>
           trace t' = trace t @ probe_events (zip (map (loc_of t) xs) prevs) @
             (if b then [Issue (Put (loc_of t (xs ! (length prevs - 1))))] else []) \<and>
           (\<forall>i<length prevs. prevs ! i = used t (loc_of t (xs ! i)) +
               of_nat (count_list (take i (map (loc_of t) xs)) (loc_of t (xs ! i)))) \<and>
           0 \<notin> set (butlast prevs) \<and> (b \<longleftrightarrow> 0 \<in> set prevs) \<and>
           (\<forall>loc. used t' loc = used t loc +
               of_nat (count_list (take (length prevs) (map (loc_of t) xs)) loc)) \<and>
           data t' = (if b then (data t)(loc_of t (xs ! (length prevs - 1)) := km) else data t) \<and>
           ranks t' = ranks t \<and> slots_per_rank t' = slots_per_rank t \<and> my_size t' = my_size t \<and>
           (\<not> b \<longrightarrow> length prevs = length xs)"
  using assms
proof (induction xs arbitrary: t)
  case Nil
  show ?case
    by (rule exI [of _ False], rule exI [of _ t], rule exI [of _ "[]"]) simp
next
  case (Cons x xs)
  have x: "x < my_size t" and xs: "\<forall>y\<in>set xs. y < my_size (probed t x)"
    using Cons.prems(2) by simp_all
  note step = insert_spec_step [OF Cons.prems(1) x]
  let ?c = "used t (loc_of t x)"
  show ?case
  proof (cases "?c = 0")
    case True
    show ?thesis
    proof (intro exI [of _ True] exI [of _ "written (probed t x) x km"] exI [of _ "[?c]"]
        conjI allI impI)
      show "insert_spec t km (x # xs) = Inr (True, written (probed t x) x km)"
        using True by (simp add: step del: insert_spec.simps(2))
      show "trace (written (probed t x) x km) =
              trace t @ probe_events (zip (map (loc_of t) (x # xs)) [?c]) @
              (if True then [Issue (Put (loc_of t ((x # xs) ! (length [?c] - 1))))] else [])"
        by simp
      show "True \<longleftrightarrow> 0 \<in> set [?c]"
        using True by simp
      show "used (written (probed t x) x km) loc = used t loc +
              of_nat (count_list (take (length [?c]) (map (loc_of t) (x # xs))) loc)" for loc
        by simp
      show "data (written (probed t x) x km) =
              (if True then (data t)(loc_of t ((x # xs) ! (length [?c] - 1)) := km) else data t)"
        by simp
    qed simp_all
  next
    case False
    have "valid (probed t x)"
      using Cons.prems(1) by simp
    from Cons.IH [OF this xs] obtain b t' prevs where
      ih: "insert_spec (probed t x) km xs = Inr (b, t') \<and> length prevs \<le> length xs \<and>
           trace t' = trace (probed t x) @ probe_events (zip (map (loc_of (probed t x)) xs) prevs) @
             (if b then [Issue (Put (loc_of (probed t x) (xs ! (length prevs - 1))))] else []) \<and>
           (\<forall>i<length prevs. prevs ! i = used (probed t x) (loc_of (probed t x) (xs ! i)) +
               of_nat (count_list (take i (map (loc_of (probed t x)) xs))
                 (loc_of (probed t x) (xs ! i)))) \<and>
           0 \<notin> set (butlast prevs) \<and> (b \<longleftrightarrow> 0 \<in> set prevs) \<and>
           (\<forall>loc. used t' loc = used (probed t x) loc +
               of_nat (count_list (take (length prevs) (map (loc_of (probed t x)) xs)) loc)) \<and>
           data t' = (if b then (data (probed t x))
              (loc_of (probed t x) (xs ! (length prevs - 1)) := km) else data (probed t x)) \<and>
           ranks t' = ranks (probed t x) \<and> slots_per_rank t' = slots_per_rank (probed t x) \<and>
           my_size t' = my_size (probed t x) \<and>
           (\<not> b \<longrightarrow> length prevs = length xs)"
      by blast
    have b: "b \<longleftrightarrow> 0 \<in> set prevs"
      using ih by simp
    have idx: "b \<Longrightarrow> (x # xs) ! (length (?c # prevs) - 1) = xs ! (length prevs - 1)"
      using b by (cases prevs) simp_all
    show ?thesis
    proof (intro exI [of _ b] exI [of _ t'] exI [of _ "?c # prevs"] conjI allI impI)
      show "insert_spec t km (x # xs) = Inr (b, t')"
        using False ih by (simp add: step del: insert_spec.simps(2))
      show "length (?c # prevs) \<le> length (x # xs)"
        using ih by simp
      show "trace t' = trace t @ probe_events (zip (map (loc_of t) (x # xs)) (?c # prevs)) @
             (if b then [Issue (Put (loc_of t ((x # xs) ! (length (?c # prevs) - 1))))] else [])"
        using ih idx by (cases b) simp_all
      show "0 \<notin> set (butlast (?c # prevs))"
        using ih False by simp
      show "b \<longleftrightarrow> 0 \<in> set (?c # prevs)"
        using b False by auto
      show "used t' loc = used t loc +
              of_nat (count_list (take (length (?c # prevs)) (map (loc_of t) (x # xs))) loc)" for loc
        using ih by simp
      show "data t' = (if b then (data t)(loc_of t ((x # xs) ! (length (?c # prevs) - 1)) := km)
              else data t)"
        using ih idx by (cases b) simp_all
      show "ranks t' = ranks t" "slots_per_rank t' = slots_per_rank t" "my_size t' = my_size t"
        using ih by simp_all
      show "length (?c # prevs) = length (x # xs)" if "\<not> b"
        using ih that by simp
    next
      fix i
      assume i: "i < length (?c # prevs)"
      show "(?c # prevs) ! i = used t (loc_of t ((x # xs) ! i)) +
              of_nat (count_list (take i (map (loc_of t) (x # xs))) (loc_of t ((x # xs) ! i)))"
      proof (cases i)
        case 0
        then show ?thesis by simp
      next
        case (Suc j)
        then have "j < length prevs"
          using i by simp
        then have "prevs ! j = used (probed t x) (loc_of t (xs ! j)) +
                 of_nat (count_list (take j (map (loc_of t) xs)) (loc_of t (xs ! j)))"
          using ih by simp
        then show ?thesis
          using Suc by simp
      qed
    qed
  qed
qed

lemma insert_kmer_run:
  assumes "valid t"
  shows "\<exists>b t' prevs. insert_kmer H t km = Inr (b, t') \<and> length prevs \<le> unat (my_size t) \<and>
           new_events t t' =
             probe_events (zip (map (loc_of t) (probe_slots (my_size t) (H (kmer km)) 0)) prevs) @
             (if b then [Issue (Put (loc_of t
                (probe_slots (my_size t) (H (kmer km)) 0 ! (length prevs - 1))))] else []) \<and>
           (\<forall>i<length prevs. prevs ! i =
               used t (loc_of t (probe_slots (my_size t) (H (kmer km)) 0 ! i)) +
               of_nat (count_list
                 (take i (map (loc_of t) (probe_slots (my_size t) (H (kmer km)) 0)))
                 (loc_of t (probe_slots (my_size t) (H (kmer km)) 0 ! i)))) \<and>
           0 \<notin> set (butlast prevs) \<and> (b \<longleftrightarrow> 0 \<in> set prevs) \<and>
           (\<forall>loc. used t' loc = used t loc + of_nat (count_list
               (take (length prevs) (map (loc_of t) (probe_slots (my_size t) (H (kmer km)) 0)))
               loc)) \<and>
           data t' = (if b then (data t)
              (loc_of t (probe_slots (my_size t) (H (kmer km)) 0 ! (length prevs - 1)) := km)
              else data t) \<and>
           same_geometry t t' \<and>
           (\<not> b \<longrightarrow> length prevs = unat (my_size t))"
proof -
  let ?xs = "probe_slots (my_size t) (H (kmer km)) 0"
  from insert_spec_run [where xs = ?xs and km = km, OF assms probe_slots_all_bound]
  obtain b t' prevs where
    run: "insert_spec t km ?xs = Inr (b, t') \<and> length prevs \<le> length ?xs \<and>
           trace t' = trace t @ (probe_events (zip (map (loc_of t) ?xs) prevs) @
             (if b then [Issue (Put (loc_of t (?xs ! (length prevs - 1))))] else [])) \<and>
           (\<forall>i<length prevs. prevs ! i = used t (loc_of t (?xs ! i)) +
               of_nat (count_list (take i (map (loc_of t) ?xs)) (loc_of t (?xs ! i)))) \<and>
           0 \<notin> set (butlast prevs) \<and> (b \<longleftrightarrow> 0 \<in> set prevs) \<and>
           (\<forall>loc. used t' loc = used t loc +
               of_nat (count_list (take (length prevs) (map (loc_of t) ?xs)) loc)) \<and>
           data t' = (if b then (data t)(loc_of t (?xs ! (length prevs - 1)) := km) else data t) \<and>
           ranks t' = ranks t \<and> slots_per_rank t' = slots_per_rank t \<and> my_size t' = my_size t \<and>
           (\<not> b \<longrightarrow> length prevs = length ?xs)"
    by blast
  then have tr: "trace t' = trace t @ (probe_events (zip (map (loc_of t) ?xs) prevs) @
             (if b then [Issue (Put (loc_of t (?xs ! (length prevs - 1))))] else []))"
    by blast
  show ?thesis
    apply (rule exI [of _ b], rule exI [of _ t'], rule exI [of _ prevs])
    using run new_events_append [OF tr]
    by (simp add: insert_kmer_spec same_geometry_def)
qed

lemma valid_table_of_iff [simp]:
  "valid (table_of nranks spr capacity) \<longleftrightarrow>
     0 < sint nranks \<and> 0 < sint spr \<and> unat capacity \<le> nat (sint nranks) * nat (sint spr)"
  by (simp add: valid_def)

lemma same_geometry_probed [simp]: "same_geometry t0 (probed t s) = same_geometry t0 t"
  by (simp add: same_geometry_def)

lemma same_geometry_written [simp]: "same_geometry t0 (written t s km) = same_geometry t0 t"
  by (simp add: same_geometry_def)

subsection \<open>The probe sequence of insert, with the sum in 64 bits\<close>

text \<open>
  C2, as the code has it. Take a table constructed for at least one rank and a capacity
  with \<open>capacity / ranks + 1 < 2^31\<close>, in any later state \<open>t\<close>. Then \<open>insert\<close> returns.
  It issues one fetch-add per probe and waits on each, on the slots
  \<open>((hash + probe) mod 2^64) mod capacity\<close> for \<open>probe = 0, 1, ...\<close> in this order.
  Each fetch-add returns the value of the slot's counter at that moment (\<open>prevs\<close>: the
  value before the insert plus the number of earlier probes on the same slot) and adds
  1 to it. All returned values but the last are non-zero. The result is success exactly
  when a returned value is 0, and then the record is written to the slot of that last
  probe and nothing else is; the result is failure only after exactly \<open>capacity\<close>
  probes, with no record written.
\<close>

theorem insert_probe_run:
  assumes "0 < sint nranks" and "unat capacity div nat (sint nranks) + 1 < 2 ^ 31"
    and "HashMap_new nranks capacity d0 = Inr t0" and "same_geometry t0 t"
  shows "\<exists>b t' prevs. insert_kmer H t km = Inr (b, t') \<and> length prevs \<le> unat capacity \<and>
           (\<forall>i<unat capacity. unat (probe_slots capacity (H (kmer km)) 0 ! i) =
               (unat (H (kmer km)) + i) mod 2 ^ 64 mod unat capacity) \<and>
           new_events t t' =
             probe_events (zip (map (loc_of t) (probe_slots capacity (H (kmer km)) 0)) prevs) @
             (if b then [Issue (Put (loc_of t
                (probe_slots capacity (H (kmer km)) 0 ! (length prevs - 1))))] else []) \<and>
           (\<forall>i<length prevs. prevs ! i =
               used t (loc_of t (probe_slots capacity (H (kmer km)) 0 ! i)) +
               of_nat (count_list
                 (take i (map (loc_of t) (probe_slots capacity (H (kmer km)) 0)))
                 (loc_of t (probe_slots capacity (H (kmer km)) 0 ! i)))) \<and>
           0 \<notin> set (butlast prevs) \<and> (b \<longleftrightarrow> 0 \<in> set prevs) \<and>
           (\<forall>loc. used t' loc = used t loc + of_nat (count_list
               (take (length prevs) (map (loc_of t) (probe_slots capacity (H (kmer km)) 0)))
               loc)) \<and>
           data t' = (if b then (data t)
              (loc_of t (probe_slots capacity (H (kmer km)) 0 ! (length prevs - 1)) := km)
              else data t) \<and>
           same_geometry t t' \<and>
           (\<not> b \<longrightarrow> length prevs = unat capacity)"
proof -
  have v: "valid t" and c: "my_size t = capacity"
    using state_valid [OF assms] by simp_all
  have "\<forall>i<unat capacity. unat (probe_slots capacity (H (kmer km)) 0 ! i) =
               (unat (H (kmer km)) + i) mod 2 ^ 64 mod unat capacity"
    using probe_slots_nth(2) by blast
  then show ?thesis
    using insert_kmer_run [OF v, of H km] by (simp only: c) blast
qed

theorem insert_probe_run_witness:
  "0 < sint (2 :: i32) \<and> unat (8 :: u64) div nat (sint (2 :: i32)) + 1 < 2 ^ 31 \<and>
   HashMap_new 2 8 (data (table_of 2 5 8)) = Inr (table_of 2 5 8) \<and>
   same_geometry (table_of 2 5 8) (probed (table_of 2 5 8) 5) \<and>
   (\<exists>b t' prevs. insert_kmer hash_id (probed (table_of 2 5 8) 5) (rec_of 5) = Inr (b, t') \<and> length prevs \<le> unat (8 :: u64) \<and>
           (\<forall>i<unat (8 :: u64). unat (probe_slots (8 :: u64) (hash_id (kmer (rec_of 5))) 0 ! i) =
               (unat (hash_id (kmer (rec_of 5))) + i) mod 2 ^ 64 mod unat (8 :: u64)) \<and>
           new_events (probed (table_of 2 5 8) 5) t' =
             probe_events (zip (map (loc_of (probed (table_of 2 5 8) 5)) (probe_slots (8 :: u64) (hash_id (kmer (rec_of 5))) 0)) prevs) @
             (if b then [Issue (Put (loc_of (probed (table_of 2 5 8) 5)
                (probe_slots (8 :: u64) (hash_id (kmer (rec_of 5))) 0 ! (length prevs - 1))))] else []) \<and>
           (\<forall>i<length prevs. prevs ! i =
               used (probed (table_of 2 5 8) 5) (loc_of (probed (table_of 2 5 8) 5) (probe_slots (8 :: u64) (hash_id (kmer (rec_of 5))) 0 ! i)) +
               of_nat (count_list
                 (take i (map (loc_of (probed (table_of 2 5 8) 5)) (probe_slots (8 :: u64) (hash_id (kmer (rec_of 5))) 0)))
                 (loc_of (probed (table_of 2 5 8) 5) (probe_slots (8 :: u64) (hash_id (kmer (rec_of 5))) 0 ! i)))) \<and>
           0 \<notin> set (butlast prevs) \<and> (b \<longleftrightarrow> 0 \<in> set prevs) \<and>
           (\<forall>loc. used t' loc = used (probed (table_of 2 5 8) 5) loc + of_nat (count_list
               (take (length prevs) (map (loc_of (probed (table_of 2 5 8) 5)) (probe_slots (8 :: u64) (hash_id (kmer (rec_of 5))) 0)))
               loc)) \<and>
           data t' = (if b then (data (probed (table_of 2 5 8) 5))
              (loc_of (probed (table_of 2 5 8) 5) (probe_slots (8 :: u64) (hash_id (kmer (rec_of 5))) 0 ! (length prevs - 1)) := (rec_of 5))
              else data (probed (table_of 2 5 8) 5)) \<and>
           same_geometry (probed (table_of 2 5 8) 5) t' \<and>
           (\<not> b \<longrightarrow> length prevs = unat (8 :: u64)))"
proof -
  have a: "0 < sint (2 :: i32)" and b: "unat (8 :: u64) div nat (sint (2 :: i32)) + 1 < 2 ^ 31"
    by simp_all
  have c: "HashMap_new 2 8 (data (table_of 2 5 8)) = Inr (table_of 2 5 8)"
    by (simp add: HashMap_new_def table_of_def)
  have d: "same_geometry (table_of 2 5 8) (probed (table_of 2 5 8) 5)"
    by simp
  show ?thesis
    using a b c d insert_probe_run [OF a b c d, where H = hash_id and km = "rec_of 5"]
    by blast
qed

text \<open>
  C2 as stated fails when \<open>hash + probe\<close> passes \<open>2^64\<close>. Take one rank, capacity 3,
  slots 0 and 1 claimed and slot 2 free, and a record whose hash is \<open>2^64 - 1\<close>. The
  slots \<open>(hash + probe) mod 3\<close> are 0, 1, 2, but \<open>insert\<close> requests 0, 0, 1 and
  returns failure with slot 2 free.
\<close>

theorem insert_probes_wrap:
  "HashMap_new 1 3 (data (table_of 1 4 3)) = Inr (table_of 1 4 3) \<and>
   same_geometry (table_of 1 4 3) (probed (probed (table_of 1 4 3) 0) 1) \<and>
   unat (hash_id 18446744073709551615) = 18446744073709551615 \<and>
   (18446744073709551615 + 0) mod 3 = (0 :: nat) \<and>
   (18446744073709551615 + 1) mod 3 = (1 :: nat) \<and>
   (18446744073709551615 + 2) mod 3 = (2 :: nat) \<and>
   probe_slots 3 (hash_id 18446744073709551615) 0 = [0, 0, 1] \<and>
   used (probed (probed (table_of 1 4 3) 0) 1) (loc_of (table_of 1 4 3) 2) = 0 \<and>
   insert_kmer hash_id (probed (probed (table_of 1 4 3) 0) 1) (rec_of 18446744073709551615) =
     Inr (False, probed (probed (probed (probed (probed (table_of 1 4 3) 0) 1) 0) 0) 1)"
proof -
  have "HashMap_new 1 3 (data (table_of 1 4 3)) = Inr (table_of 1 4 3)"
    by (simp add: HashMap_new_def table_of_def)
  moreover have slots: "probe_slots 3 (hash_id 18446744073709551615) 0 = [0, 0, 1]"
    by (simp add: probe_slots_def hash_id_def upt_rec)
  moreover have "used (probed (probed (table_of 1 4 3) 0) 1) (loc_of (table_of 1 4 3) 2) = 0"
    by (simp add: loc_of_def)
  moreover have "insert_kmer hash_id (probed (probed (table_of 1 4 3) 0) 1)
       (rec_of 18446744073709551615) =
     Inr (False, probed (probed (probed (probed (probed (table_of 1 4 3) 0) 1) 0) 0) 1)"
    by (simp add: insert_kmer_spec rec_of_def slots insert_spec_step loc_of_def
        del: insert_spec.simps(2))
  ultimately show ?thesis
    by (simp add: hash_id_def)
qed

lemma read_prefix_not_Nil [simp]: "read_prefix t key_kmer (x # xs) \<noteq> []"
  by (simp add: read_prefix_Cons)

lemma find_loop_value:
  assumes "valid t" and "probe < my_size t"
    and "find_loop t key_kmer hash probe = Inr (b, v, t')"
  shows "v = data t (loc_of t (last (read_prefix t key_kmer
           (probe_slots (my_size t) hash (unat probe)))))"
  using assms
proof (induction t key_kmer hash probe rule: find_loop.induct)
  case (1 t key_kmer hash probe)
  let ?slot = "(hash + probe) mod my_size t"
  let ?v = "data t (loc_of t ?slot)"
  have nz: "my_size t \<noteq> 0"
    using "1.prems"(2) by auto
  then have slot: "?slot < my_size t"
    by (simp add: word_mod_less_divisor word_greater_zero_iff)
  have rd: "read_slot t ?slot = Inr (?v, got t ?slot)"
    using "1.prems"(1) slot by (rule read_slot_valid)
  note cons = probe_slots_Cons [OF "1.prems"(2), of hash]
  show ?case
  proof (cases "kmer ?v = key_kmer")
    case True
    have "find_loop t key_kmer hash probe = Inr (True, ?v, got t ?slot)"
      using True by (subst find_loop.simps) (simp add: nz rd)
    then show ?thesis
      using "1.prems"(3) True by (simp add: cons read_prefix_Cons)
  next
    case False
    show ?thesis
    proof (cases "probe + 1 < my_size t")
      case more: True
      have v: "valid (got t ?slot)" and p: "probe + 1 < my_size (got t ?slot)"
        using "1.prems"(1) more by simp_all
      have run: "find_loop (got t ?slot) key_kmer hash (probe + 1) = Inr (b, v, t')"
        using "1.prems"(3) False more by (subst (asm) find_loop.simps) (simp add: nz rd)
      have rp: "read_prefix (got t ?slot) key_kmer xs = read_prefix t key_kmer xs" for xs
        by (rule read_prefix_cong) simp_all
      obtain y ys where ys: "probe_slots (my_size t) hash (unat (probe + 1)) = y # ys"
        using probe_slots_Cons [OF more, of hash] by blast
      from "1.IH" [OF nz refl refl rd refl refl _ v p run] False more
      have "v = data t (loc_of t (last (read_prefix t key_kmer
               (probe_slots (my_size t) hash (unat (probe + 1))))))"
        by (simp add: rp)
      then show ?thesis
        using False by (simp add: cons read_prefix_Cons ys)
    next
      case last: False
      have nil: "probe_slots (my_size t) hash (unat (probe + 1)) = []"
        using last by (rule probe_slots_Nil)
      have "find_loop t key_kmer hash probe = Inr (False, ?v, got t ?slot)"
        using False last by (subst find_loop.simps) (simp add: nz rd)
      then show ?thesis
        using "1.prems"(3) False by (simp add: cons nil read_prefix_Cons read_prefix_def)
    qed
  qed
qed

lemma find_kmer_value:
  assumes "valid t" and "my_size t \<noteq> 0" and "find_kmer H t key_kmer = Inr (b, v, t')"
  shows "v = data t (loc_of t (last (read_prefix t key_kmer
           (probe_slots (my_size t) (H key_kmer) 0))))"
proof -
  have "0 < my_size t"
    using assms(2) by (simp add: word_greater_zero_iff)
  from find_loop_value [OF assms(1) this, of key_kmer "H key_kmer" b v t'] assms(3)
  show ?thesis
    by (simp add: find_kmer_def)
qed

subsection \<open>When find reports not found\<close>

text \<open>
  C8, as the code has it. Take a table constructed for at least one rank and a capacity
  of at least 1 with \<open>capacity / ranks + 1 < 2^31\<close>, in any later state \<open>t\<close>. Then
  \<open>find\<close> returns, without an error and without changing the two arrays. It reads the
  slots \<open>((hash + probe) mod 2^64) mod capacity\<close> in order up to the first one whose
  record has the searched key, and hands back the last record it read. It returns not
  found exactly when no slot of the whole sequence holds a record with the searched
  key, and it has then read all \<open>capacity\<close> of them. The occupancy counters play no
  part: what counts is what the record array holds, written or not. So on a table
  without inserts \<open>find\<close> returns not found for the keys that differ from the keys
  of the records the allocation left in the array.
\<close>

theorem find_not_found:
  assumes "0 < sint nranks" and "unat capacity div nat (sint nranks) + 1 < 2 ^ 31"
    and "HashMap_new nranks capacity d0 = Inr t0" and "same_geometry t0 t"
    and "capacity \<noteq> 0"
  shows "\<exists>b v t'. find_kmer H t key_kmer = Inr (b, v, t') \<and>
           (\<forall>i<unat capacity. unat (probe_slots capacity (H key_kmer) 0 ! i) =
               (unat (H key_kmer) + i) mod 2 ^ 64 mod unat capacity) \<and>
           (\<not> b \<longleftrightarrow> (\<forall>x\<in>set (probe_slots capacity (H key_kmer) 0).
                      kmer (data t (loc_of t x)) \<noteq> key_kmer)) \<and>
           new_events t t' = get_events (map (loc_of t)
              (read_prefix t key_kmer (probe_slots capacity (H key_kmer) 0))) \<and>
           (\<not> b \<longrightarrow> read_prefix t key_kmer (probe_slots capacity (H key_kmer) 0) =
              probe_slots capacity (H key_kmer) 0) \<and>
           v = data t (loc_of t (last
              (read_prefix t key_kmer (probe_slots capacity (H key_kmer) 0)))) \<and>
           (b \<longrightarrow> kmer v = key_kmer) \<and>
           data t' = data t \<and> used t' = used t \<and> same_geometry t t' \<and>
           ((\<forall>loc. kmer (data t loc) \<noteq> key_kmer) \<longrightarrow> \<not> b)"
proof -
  have v: "valid t" and c: "my_size t = capacity"
    using state_valid [OF assms(1-4)] by simp_all
  have nz: "my_size t \<noteq> 0"
    using c assms(5) by simp
  let ?xs = "probe_slots capacity (H key_kmer) 0"
  from find_kmer_run [OF v nz, of H key_kmer] obtain b v t' where
    run: "find_kmer H t key_kmer = Inr (b, v, t')"
    and b: "b \<longleftrightarrow> (\<exists>x\<in>set ?xs. kmer (data t (loc_of t x)) = key_kmer)"
    and k: "b \<longrightarrow> kmer v = key_kmer"
    and same: "data t' = data t" "used t' = used t" "same_geometry t t'"
    and tr: "trace t' = trace t @ get_events (map (loc_of t) (read_prefix t key_kmer ?xs))"
    unfolding c same_geometry_def by blast
  have val: "v = data t (loc_of t (last (read_prefix t key_kmer ?xs)))"
    using find_kmer_value [OF v nz run] by (simp only: c)
  have full: "read_prefix t key_kmer ?xs = ?xs" if "\<not> b"
    using that b by (intro read_prefix_all) simp
  have nth: "\<forall>i<unat capacity. unat (?xs ! i) = (unat (H key_kmer) + i) mod 2 ^ 64 mod unat capacity"
    using probe_slots_nth(2) by blast
  have none: "\<not> b" if "\<forall>loc. kmer (data t loc) \<noteq> key_kmer"
    using that b by simp
  show ?thesis
  proof (intro exI [of _ b] exI [of _ v] exI [of _ t'] conjI)
    show "find_kmer H t key_kmer = Inr (b, v, t')"
      by (rule run)
    show "\<forall>i<unat capacity. unat (?xs ! i) = (unat (H key_kmer) + i) mod 2 ^ 64 mod unat capacity"
      by (rule nth)
    show "\<not> b \<longleftrightarrow> (\<forall>x\<in>set ?xs. kmer (data t (loc_of t x)) \<noteq> key_kmer)"
      using b by simp
    show "new_events t t' = get_events (map (loc_of t) (read_prefix t key_kmer ?xs))"
      using tr by simp
    show "\<not> b \<longrightarrow> read_prefix t key_kmer ?xs = ?xs"
      using full by simp
    show "v = data t (loc_of t (last (read_prefix t key_kmer ?xs)))"
      by (rule val)
    show "b \<longrightarrow> kmer v = key_kmer"
      by (rule k)
    show "data t' = data t" "used t' = used t" "same_geometry t t'"
      by (rule same)+
    show "(\<forall>loc. kmer (data t loc) \<noteq> key_kmer) \<longrightarrow> \<not> b"
      using none by simp
  qed
qed

theorem find_not_found_witness:
  "0 < sint (2 :: i32) \<and> unat (8 :: u64) div nat (sint (2 :: i32)) + 1 < 2 ^ 31 \<and>
   HashMap_new 2 8 (data (table_of 2 5 8)) = Inr (table_of 2 5 8) \<and>
   same_geometry (table_of 2 5 8) (written (probed (table_of 2 5 8) 5) 5 (rec_of 5)) \<and> (8 :: u64) \<noteq> 0 \<and>
   (\<exists>b v t'. find_kmer hash_id (written (probed (table_of 2 5 8) 5) 5 (rec_of 5)) 13 = Inr (b, v, t') \<and>
           (\<forall>i<unat (8 :: u64). unat (probe_slots (8 :: u64) (hash_id 13) 0 ! i) =
               (unat (hash_id 13) + i) mod 2 ^ 64 mod unat (8 :: u64)) \<and>
           (\<not> b \<longleftrightarrow> (\<forall>x\<in>set (probe_slots (8 :: u64) (hash_id 13) 0).
                      kmer (data (written (probed (table_of 2 5 8) 5) 5 (rec_of 5)) (loc_of (written (probed (table_of 2 5 8) 5) 5 (rec_of 5)) x)) \<noteq> 13)) \<and>
           new_events (written (probed (table_of 2 5 8) 5) 5 (rec_of 5)) t' = get_events (map (loc_of (written (probed (table_of 2 5 8) 5) 5 (rec_of 5)))
              (read_prefix (written (probed (table_of 2 5 8) 5) 5 (rec_of 5)) 13 (probe_slots (8 :: u64) (hash_id 13) 0))) \<and>
           (\<not> b \<longrightarrow> read_prefix (written (probed (table_of 2 5 8) 5) 5 (rec_of 5)) 13 (probe_slots (8 :: u64) (hash_id 13) 0) =
              probe_slots (8 :: u64) (hash_id 13) 0) \<and>
           v = data (written (probed (table_of 2 5 8) 5) 5 (rec_of 5)) (loc_of (written (probed (table_of 2 5 8) 5) 5 (rec_of 5)) (last
              (read_prefix (written (probed (table_of 2 5 8) 5) 5 (rec_of 5)) 13 (probe_slots (8 :: u64) (hash_id 13) 0)))) \<and>
           (b \<longrightarrow> kmer v = 13) \<and>
           data t' = data (written (probed (table_of 2 5 8) 5) 5 (rec_of 5)) \<and> used t' = used (written (probed (table_of 2 5 8) 5) 5 (rec_of 5)) \<and> same_geometry (written (probed (table_of 2 5 8) 5) 5 (rec_of 5)) t' \<and>
           ((\<forall>loc. kmer (data (written (probed (table_of 2 5 8) 5) 5 (rec_of 5)) loc) \<noteq> 13) \<longrightarrow> \<not> b))"
proof -
  have a: "0 < sint (2 :: i32)" and b: "unat (8 :: u64) div nat (sint (2 :: i32)) + 1 < 2 ^ 31"
    by simp_all
  have c: "HashMap_new 2 8 (data (table_of 2 5 8)) = Inr (table_of 2 5 8)"
    by (simp add: HashMap_new_def table_of_def)
  have d: "same_geometry (table_of 2 5 8) (written (probed (table_of 2 5 8) 5) 5 (rec_of 5))"
    by simp
  have e: "(8 :: u64) \<noteq> 0"
    by simp
  show ?thesis
    using a b c d e find_not_found [OF a b c d e, where H = hash_id and key_kmer = 13]
    by blast
qed

text \<open>
  C8 as stated fails on a table without inserts: \<open>table_of 1 2 1\<close> is what the
  constructor returns for one rank and one slot when the record array starts as
  \<open>rec_of 0\<close> everywhere, no operation has been issued on it and its counter is 0, and
  \<open>find\<close> of key 0 returns success with that never-written record.
\<close>

theorem find_on_empty_table_succeeds:
  "HashMap_new 1 1 (data (table_of 1 2 1)) = Inr (table_of 1 2 1) \<and>
   used (table_of 1 2 1) \<lparr>rank = 0, offset = 0\<rparr> = 0 \<and>
   find_kmer hash_id (table_of 1 2 1) 0 = Inr (True, rec_of 0, got (table_of 1 2 1) 0)"
proof -
  have "HashMap_new 1 1 (data (table_of 1 2 1)) = Inr (table_of 1 2 1)"
    by (simp add: HashMap_new_def table_of_def)
  moreover have "find_kmer hash_id (table_of 1 2 1) 0 = Inr (True, rec_of 0, got (table_of 1 2 1) 0)"
    by (simp add: find_kmer_def find_loop.simps [of _ _ _ 0] read_slot_valid rec_of_def)
  ultimately show ?thesis
    by simp
qed

lemma table_after_ranks:
  assumes "valid t" and "\<forall>x\<in>set slots. x < my_size t"
  shows "ranks (table_after t slots) = ranks t"
  using request_all_run [OF assms] by (auto simp: table_after_def)

lemma insert_kmer_failure_trace:
  assumes "valid t" and "insert_kmer H t km = Inr (False, t')"
  shows "\<exists>prevs. length prevs = unat (my_size t) \<and> 0 \<notin> set prevs \<and>
           new_events t t' = probe_events
             (zip (map (loc_of t) (probe_slots (my_size t) (H (kmer km)) 0)) prevs) \<and>
           same_geometry t t'"
proof -
  from insert_kmer_run [OF assms(1), of H km] obtain b t'' prevs where
    run: "insert_kmer H t km = Inr (b, t'')" and b: "b \<longleftrightarrow> 0 \<in> set prevs"
    and tr: "new_events t t'' =
             probe_events (zip (map (loc_of t) (probe_slots (my_size t) (H (kmer km)) 0)) prevs) @
             (if b then [Issue (Put (loc_of t
                (probe_slots (my_size t) (H (kmer km)) 0 ! (length prevs - 1))))] else [])"
    and g: "same_geometry t t''" and len: "\<not> b \<longrightarrow> length prevs = unat (my_size t)"
    by blast
  have "b = False" "t'' = t'"
    using run assms(2) by simp_all
  then show ?thesis
    using b tr g len by (intro exI [of _ prevs]) simp
qed

subsection \<open>A failed insert\<close>

text \<open>
  C3, as the code has it. Take a table constructed for at least one rank and a capacity
  with \<open>capacity / ranks + 1 < 2^31\<close>, in any later state \<open>t\<close>, and let \<open>insert\<close>
  return failure. It has then issued exactly \<open>capacity\<close> fetch-adds, each answered
  with a non-zero value, and no write: the record array is unchanged, and every probed
  slot was claimed before. The counters are not unchanged: each probe has added 1 to
  the counter of its slot. A slot whose counter is far enough from \<open>2^32\<close> for
  these additions not to wrap is claimed afterwards exactly when it was claimed
  before.
\<close>

theorem failed_insert_effect:
  assumes "0 < sint nranks" and "unat capacity div nat (sint nranks) + 1 < 2 ^ 31"
    and "HashMap_new nranks capacity d0 = Inr t0" and "same_geometry t0 t"
    and "insert_kmer H t km = Inr (False, t')"
  shows "data t' = data t \<and> same_geometry t t' \<and>
         (\<exists>prevs. length prevs = unat capacity \<and> 0 \<notin> set prevs \<and>
            new_events t t' = probe_events
              (zip (map (loc_of t) (probe_slots capacity (H (kmer km)) 0)) prevs)) \<and>
         (\<forall>x\<in>set (probe_slots capacity (H (kmer km)) 0). used t (loc_of t x) \<noteq> 0) \<and>
         (\<forall>loc. used t' loc = used t loc +
            of_nat (count_list (map (loc_of t) (probe_slots capacity (H (kmer km)) 0)) loc)) \<and>
         (\<forall>loc. unat (used t loc) +
              count_list (map (loc_of t) (probe_slots capacity (H (kmer km)) 0)) loc < 2 ^ 32 \<longrightarrow>
            (used t' loc = 0 \<longleftrightarrow> used t loc = 0))"
proof -
  have v: "valid t" and c: "my_size t = capacity"
    using state_valid [OF assms(1-4)] by simp_all
  have run: "insert_spec t km (probe_slots capacity (H (kmer km)) 0) = Inr (False, t')"
    using assms(5) by (simp add: insert_kmer_spec c)
  have bound: "\<forall>x\<in>set (probe_slots capacity (H (kmer km)) 0). x < my_size t"
    using probe_slots_all_bound by (simp only: c)
  let ?xs = "probe_slots capacity (H (kmer km)) 0"
  have f: "data t' = data t"
    "\<forall>loc. used t' loc = used t loc + of_nat (count_list (map (loc_of t) ?xs) loc)"
    "\<forall>loc. unat (used t loc) + count_list (map (loc_of t) ?xs) loc < 2 ^ 32 \<longrightarrow>
       (used t' loc = 0 \<longleftrightarrow> used t loc = 0)"
    using failed_insert_valid [OF v assms(5)] unfolding c by blast+
  have tr: "\<exists>prevs. length prevs = unat capacity \<and> 0 \<notin> set prevs \<and>
            new_events t t' = probe_events (zip (map (loc_of t) ?xs) prevs)"
    and g: "same_geometry t t'"
    using insert_kmer_failure_trace [OF v assms(5)] unfolding c by blast+
  have cl: "\<forall>x\<in>set ?xs. used t (loc_of t x) \<noteq> 0"
    using insert_spec_failure_claimed [OF v bound run] .
  show ?thesis
    by (intro conjI f g tr cl)
qed

theorem failed_insert_effect_witness:
  "0 < sint (1 :: i32) \<and> unat (2 :: u64) div nat (sint (1 :: i32)) + 1 < 2 ^ 31 \<and>
   HashMap_new 1 2 (data (table_of 1 3 2)) = Inr (table_of 1 3 2) \<and>
   same_geometry (table_of 1 3 2) (probed (probed (table_of 1 3 2) 0) 1) \<and>
   insert_kmer hash_id (probed (probed (table_of 1 3 2) 0) 1) (rec_of 5) = Inr (False, (probed (probed (probed (probed (table_of 1 3 2) 0) 1) 1) 0)) \<and>
   data (probed (probed (probed (probed (table_of 1 3 2) 0) 1) 1) 0) = data (probed (probed (table_of 1 3 2) 0) 1) \<and> same_geometry (probed (probed (table_of 1 3 2) 0) 1) (probed (probed (probed (probed (table_of 1 3 2) 0) 1) 1) 0) \<and>
   (\<exists>prevs. length prevs = unat (2 :: u64) \<and> 0 \<notin> set prevs \<and>
      new_events (probed (probed (table_of 1 3 2) 0) 1) (probed (probed (probed (probed (table_of 1 3 2) 0) 1) 1) 0) = probe_events
        (zip (map (loc_of (probed (probed (table_of 1 3 2) 0) 1)) (probe_slots 2 (hash_id (kmer (rec_of 5))) 0)) prevs)) \<and>
   used (probed (probed (probed (probed (table_of 1 3 2) 0) 1) 1) 0) \<lparr>rank = 0, offset = 1\<rparr> = used (probed (probed (table_of 1 3 2) 0) 1) \<lparr>rank = 0, offset = 1\<rparr> +
      of_nat (count_list (map (loc_of (probed (probed (table_of 1 3 2) 0) 1)) (probe_slots 2 (hash_id (kmer (rec_of 5))) 0))
        \<lparr>rank = 0, offset = 1\<rparr>) \<and>
   (used (probed (probed (probed (probed (table_of 1 3 2) 0) 1) 1) 0) \<lparr>rank = 0, offset = 1\<rparr> = 0 \<longleftrightarrow> used (probed (probed (table_of 1 3 2) 0) 1) \<lparr>rank = 0, offset = 1\<rparr> = 0)"
proof -
  have a: "0 < sint (1 :: i32)" and b: "unat (2 :: u64) div nat (sint (1 :: i32)) + 1 < 2 ^ 31"
    by simp_all
  have c: "HashMap_new 1 2 (data (table_of 1 3 2)) = Inr (table_of 1 3 2)"
    by (simp add: HashMap_new_def table_of_def)
  have d: "same_geometry (table_of 1 3 2) (probed (probed (table_of 1 3 2) 0) 1)"
    by simp
  have slots: "probe_slots 2 (hash_id 5) 0 = [1, 0]"
    by (simp add: probe_slots_def hash_id_def upt_rec)
  have e: "insert_kmer hash_id (probed (probed (table_of 1 3 2) 0) 1) (rec_of 5) = Inr (False, (probed (probed (probed (probed (table_of 1 3 2) 0) 1) 1) 0))"
    by (simp add: insert_kmer_spec rec_of_def slots insert_spec_step loc_of_def
        del: insert_spec.simps(2))
  note th = failed_insert_effect [OF a b c d e]
  have f: "data (probed (probed (probed (probed (table_of 1 3 2) 0) 1) 1) 0) = data (probed (probed (table_of 1 3 2) 0) 1)" "same_geometry (probed (probed (table_of 1 3 2) 0) 1) (probed (probed (probed (probed (table_of 1 3 2) 0) 1) 1) 0)"
    "\<exists>prevs. length prevs = unat (2 :: u64) \<and> 0 \<notin> set prevs \<and>
      new_events (probed (probed (table_of 1 3 2) 0) 1) (probed (probed (probed (probed (table_of 1 3 2) 0) 1) 1) 0) = probe_events
        (zip (map (loc_of (probed (probed (table_of 1 3 2) 0) 1)) (probe_slots 2 (hash_id (kmer (rec_of 5))) 0)) prevs)"
    using th by blast+
  have g: "used (probed (probed (probed (probed (table_of 1 3 2) 0) 1) 1) 0) \<lparr>rank = 0, offset = 1\<rparr> = used (probed (probed (table_of 1 3 2) 0) 1) \<lparr>rank = 0, offset = 1\<rparr> +
      of_nat (count_list (map (loc_of (probed (probed (table_of 1 3 2) 0) 1)) (probe_slots 2 (hash_id (kmer (rec_of 5))) 0))
        \<lparr>rank = 0, offset = 1\<rparr>)"
    using th by blast
  have h: "used (probed (probed (probed (probed (table_of 1 3 2) 0) 1) 1) 0) \<lparr>rank = 0, offset = 1\<rparr> = 0 \<longleftrightarrow> used (probed (probed (table_of 1 3 2) 0) 1) \<lparr>rank = 0, offset = 1\<rparr> = 0"
    by (simp add: loc_of_def)
  show ?thesis
    by (intro conjI a b c d e f g h)
qed

text \<open>
  C3 as stated fails. Take one rank and capacity 1. After one \<open>request_slot\<close> on
  slot 0 its counter is 1; an insert then fails and leaves the counter at 2: the table
  state has changed. After \<open>2^32 - 1\<close> calls the counter is -1, the slot is claimed;
  an insert then fails as well, and leaves the counter at 0: the slot is free again.
\<close>

theorem failed_insert_changes_counters:
  "HashMap_new 1 1 (data (table_of 1 2 1)) = Inr (table_of 1 2 1) \<and>
   used (probed (table_of 1 2 1) 0) \<lparr>rank = 0, offset = 0\<rparr> = 1 \<and>
   insert_kmer hash_id (probed (table_of 1 2 1) 0) (rec_of 5) =
     Inr (False, probed (probed (table_of 1 2 1) 0) 0) \<and>
   used (probed (probed (table_of 1 2 1) 0) 0) \<lparr>rank = 0, offset = 0\<rparr> = 2 \<and>
   same_geometry (table_of 1 2 1) (table_after (table_of 1 2 1) (replicate 4294967295 0)) \<and>
   used (table_after (table_of 1 2 1) (replicate 4294967295 0)) \<lparr>rank = 0, offset = 0\<rparr> = - 1 \<and>
   insert_kmer hash_id (table_after (table_of 1 2 1) (replicate 4294967295 0)) (rec_of 5) =
     Inr (False, probed (table_after (table_of 1 2 1) (replicate 4294967295 0)) 0) \<and>
   used (probed (table_after (table_of 1 2 1) (replicate 4294967295 0)) 0)
     \<lparr>rank = 0, offset = 0\<rparr> = 0"
proof -
  let ?S = "table_after (table_of 1 2 1) (replicate 4294967295 0)"
  have bound: "\<forall>x\<in>set (replicate 4294967295 (0 :: u64)). x < my_size (table_of 1 2 1)"
    by simp
  note after = table_after_run [OF valid_table_of bound]
  have new: "HashMap_new 1 1 (data (table_of 1 2 1)) = Inr (table_of 1 2 1)"
    by (simp add: HashMap_new_def table_of_def)
  have plain: "insert_kmer hash_id (probed (table_of 1 2 1) 0) (rec_of 5) =
     Inr (False, probed (probed (table_of 1 2 1) 0) 0)"
    by (simp add: insert_kmer_spec insert_spec_step del: insert_spec.simps(2))
  have g: "same_geometry (table_of 1 2 1) ?S"
    using after(2,3) table_after_ranks [OF valid_table_of bound]
    by (simp add: same_geometry_def)
  have u: "used ?S \<lparr>rank = 0, offset = 0\<rparr> = - 1"
    using after(5) [of "\<lparr>rank = 0, offset = 0\<rparr>"] by simp
  have sz: "my_size ?S = 1"
    using after(2) by simp
  have wrap: "insert_kmer hash_id ?S (rec_of 5) = Inr (False, probed ?S 0)"
    using after(1) u
    by (simp add: insert_kmer_spec sz insert_spec_step del: insert_spec.simps(2))
  have "used (probed ?S 0) \<lparr>rank = 0, offset = 0\<rparr> = 0"
    using u by simp
  then show ?thesis
    using new plain g u wrap by simp
qed

lemma count_list_map_inj:
  assumes "inj_on f (insert x (set xs))"
  shows "count_list (map f xs) (f x) = count_list xs x"
  using assms
proof (induction xs)
  case Nil
  show ?case by simp
next
  case (Cons y ys)
  have "inj_on f (insert x (set ys))"
    using Cons.prems by (rule inj_on_subset) auto
  then have ih: "count_list (map f ys) (f x) = count_list ys x"
    by (rule Cons.IH)
  have "f y = f x \<longleftrightarrow> y = x"
    using Cons.prems by (auto simp: inj_on_def)
  then show ?case
    using ih by simp
qed

lemma loc_of_inj_on:
  assumes "valid t" and "\<forall>x\<in>A. x < my_size t"
  shows "inj_on (loc_of t) A"
proof (rule inj_onI)
  fix x y
  assume "x \<in> A" and "y \<in> A" and "loc_of t x = loc_of t y"
  then show "x = y"
    using assms by (intro loc_of_inj [of t x y]) simp_all
qed

lemma count_list_take_less:
  assumes "i < length xs" and "xs ! i = x"
  shows "count_list (take i xs) x < count_list xs x"
proof -
  have "xs = take i xs @ xs ! i # drop (Suc i) xs"
    using assms(1) by (rule id_take_nth_drop)
  then have "count_list xs x = count_list (take i xs @ x # drop (Suc i) xs) x"
    using assms(2) by simp
  also have "\<dots> = count_list (take i xs) x + 1 + count_list (drop (Suc i) xs) x"
    by simp
  finally show ?thesis
    by simp
qed

lemma word32_of_nat_eq_0:
  assumes "k < 2 ^ 32"
  shows "(of_nat k :: i32) = 0 \<longleftrightarrow> k = 0"
proof
  assume "(of_nat k :: i32) = 0"
  then have "unat (of_nat k :: i32) = 0"
    by simp
  then show "k = 0"
    using assms by (simp add: unat_of_nat)
qed simp

lemma request_all_slots:
  assumes "valid t" and "\<forall>x\<in>set slots. x < my_size t"
  shows "\<exists>prevs t'. request_all t slots = Inr (prevs, t') \<and> length prevs = length slots \<and>
           (\<forall>i<length slots. prevs ! i = used t (loc_of t (slots ! i)) +
               of_nat (count_list (take i slots) (slots ! i))) \<and>
           (\<forall>loc. used t' loc = used t loc + of_nat (count_list (map (loc_of t) slots) loc)) \<and>
           data t' = data t \<and> same_geometry t t'"
proof -
  from request_all_run [OF assms] obtain prevs t' where
    run: "request_all t slots = Inr (prevs, t')" and len: "length prevs = length slots"
    and g: "ranks t' = ranks t" "slots_per_rank t' = slots_per_rank t" "my_size t' = my_size t"
    and d: "data t' = data t"
    and u: "\<forall>loc. used t' loc = used t loc + of_nat (count_list (map (loc_of t) slots) loc)"
    and p: "\<forall>i<length slots. prevs ! i = used t (loc_of t (slots ! i)) +
               of_nat (count_list (take i (map (loc_of t) slots)) (loc_of t (slots ! i)))"
    by blast
  have "prevs ! i = used t (loc_of t (slots ! i)) + of_nat (count_list (take i slots) (slots ! i))"
    if i: "i < length slots" for i
  proof -
    have "\<forall>x\<in>insert (slots ! i) (set (take i slots)). x < my_size t"
      using assms(2) i by (auto dest: in_set_takeD)
    then have "inj_on (loc_of t) (insert (slots ! i) (set (take i slots)))"
      using assms(1) by (intro loc_of_inj_on)
    then have "count_list (map (loc_of t) (take i slots)) (loc_of t (slots ! i)) =
                 count_list (take i slots) (slots ! i)"
      by (rule count_list_map_inj)
    then show ?thesis
      using p i by (simp add: take_map)
  qed
  then show ?thesis
    using run len g d u by (intro exI [of _ prevs] exI [of _ t']) (simp add: same_geometry_def)
qed

subsection \<open>One winner per slot\<close>

text \<open>
  C5, as the code has it. Take a table constructed for at least one rank and a capacity
  with \<open>capacity / ranks + 1 < 2^31\<close>, in any later state \<open>t\<close>, and any run of
  \<open>request_slot(slot).wait()\<close> calls on slots below the capacity. Every call returns
  the counter of its slot before the run plus the number of earlier calls of the run on
  the same slot, counted in 32 bits. So for a slot whose counter starts at 0 and which
  the run calls at most \<open>2^32\<close> times, a call on it receives 0 exactly when it is the
  first one: exactly one call wins the slot and every other call on it receives a
  non-zero value.
\<close>

theorem first_request_wins:
  assumes "0 < sint nranks" and "unat capacity div nat (sint nranks) + 1 < 2 ^ 31"
    and "HashMap_new nranks capacity d0 = Inr t0" and "same_geometry t0 t"
    and "\<forall>x\<in>set slots. x < capacity" and "slot \<in> set slots"
    and "used t (loc_of t slot) = 0" and "count_list slots slot \<le> 2 ^ 32"
  shows "\<exists>prevs t'. request_all t slots = Inr (prevs, t') \<and> length prevs = length slots \<and>
           (\<forall>i<length slots. prevs ! i = used t (loc_of t (slots ! i)) +
               of_nat (count_list (take i slots) (slots ! i))) \<and>
           (\<forall>i<length slots. slots ! i = slot \<longrightarrow>
               (prevs ! i = 0 \<longleftrightarrow> slot \<notin> set (take i slots))) \<and>
           (\<exists>!i. i < length slots \<and> slots ! i = slot \<and> prevs ! i = 0) \<and>
           (\<forall>loc. used t' loc = used t loc + of_nat (count_list (map (loc_of t) slots) loc)) \<and>
           data t' = data t \<and> same_geometry t t'"
proof -
  have v: "valid t" and c: "my_size t = capacity"
    using state_valid [OF assms(1-4)] by simp_all
  have bound: "\<forall>x\<in>set slots. x < my_size t"
    using assms(5) by (simp only: c)
  from request_all_slots [OF v bound] obtain prevs t' where
    run: "request_all t slots = Inr (prevs, t')" and len: "length prevs = length slots"
    and p: "\<forall>i<length slots. prevs ! i = used t (loc_of t (slots ! i)) +
               of_nat (count_list (take i slots) (slots ! i))"
    and rest: "\<forall>loc. used t' loc = used t loc + of_nat (count_list (map (loc_of t) slots) loc)"
      "data t' = data t" "same_geometry t t'"
    by blast
  have first: "prevs ! i = 0 \<longleftrightarrow> slot \<notin> set (take i slots)"
    if i: "i < length slots" and s: "slots ! i = slot" for i
  proof -
    have "count_list (take i slots) slot < count_list slots slot"
      using i s by (rule count_list_take_less)
    then have small: "count_list (take i slots) slot < 2 ^ 32"
      using assms(8) by simp
    have "prevs ! i = of_nat (count_list (take i slots) slot)"
      using p i s assms(7) by simp
    then have "prevs ! i = 0 \<longleftrightarrow> count_list (take i slots) slot = 0"
      using word32_of_nat_eq_0 [OF small] by simp
    then show ?thesis
      by (simp add: count_list_0_iff)
  qed
  obtain ys zs where split: "slots = ys @ slot # zs" and ys: "slot \<notin> set ys"
    using split_list_first [OF assms(6)] by blast
  let ?k = "length ys"
  have k: "?k < length slots" "slots ! ?k = slot" "slot \<notin> set (take ?k slots)"
    using ys by (simp_all add: split)
  have uniq: "i = ?k" if i: "i < length slots" and s: "slots ! i = slot"
    and n: "slot \<notin> set (take i slots)" for i
  proof (rule ccontr)
    assume "i \<noteq> ?k"
    then consider "i < ?k" | "?k < i"
      by linarith
    then show False
    proof cases
      case 1
      then have "slots ! i = ys ! i"
        by (simp add: split nth_append)
      then have "slot = ys ! i"
        using s by simp
      then have "slot \<in> set ys"
        using 1 nth_mem [of i ys] by simp
      then show False
        using ys by simp
    next
      case 2
      have "take i slots ! ?k = slots ! ?k"
        using 2 by simp
      moreover have "?k < length (take i slots)"
        using 2 i by simp
      ultimately have "slot \<in> set (take i slots)"
        using k(2) nth_mem [of ?k "take i slots"] by simp
      then show False
        using n by simp
    qed
  qed
  have one: "\<exists>!i. i < length slots \<and> slots ! i = slot \<and> prevs ! i = 0"
  proof (rule ex1I [of _ ?k])
    show "?k < length slots \<and> slots ! ?k = slot \<and> prevs ! ?k = 0"
      using k first by simp
  next
    fix i
    assume a: "i < length slots \<and> slots ! i = slot \<and> prevs ! i = 0"
    then have "slot \<notin> set (take i slots)"
      using first [of i] by simp
    then show "i = ?k"
      using a by (intro uniq) simp_all
  qed
  have firsts: "\<forall>i<length slots. slots ! i = slot \<longrightarrow>
               (prevs ! i = 0 \<longleftrightarrow> slot \<notin> set (take i slots))"
    using first by simp
  show ?thesis
    by (intro exI [of _ prevs] exI [of _ t'] conjI run len p firsts one rest)
qed

lemma length_previous_values:
  assumes "valid t" and "\<forall>x\<in>set slots. x < my_size t"
  shows "length (previous_values t slots) = length slots"
  using request_all_run [OF assms] by (auto simp: previous_values_def)

theorem first_request_wins_witness:
  "0 < sint (2 :: i32) \<and> unat (8 :: u64) div nat (sint (2 :: i32)) + 1 < 2 ^ 31 \<and>
   HashMap_new 2 8 (data (table_of 2 5 8)) = Inr (table_of 2 5 8) \<and>
   same_geometry (table_of 2 5 8) (probed (table_of 2 5 8) 5) \<and>
   (3 :: u64) < 8 \<and> (5 :: u64) < 8 \<and> (3 :: u64) \<in> set ([3, 5, 3, 3] :: u64 list) \<and>
   used (probed (table_of 2 5 8) 5) (loc_of (probed (table_of 2 5 8) 5) 3) = 0 \<and> count_list ([3, 5, 3, 3] :: u64 list) (3 :: u64) \<le> 2 ^ 32 \<and>
   (\<exists>prevs t'. request_all (probed (table_of 2 5 8) 5) ([3, 5, 3, 3] :: u64 list) = Inr (prevs, t') \<and> length prevs = length ([3, 5, 3, 3] :: u64 list) \<and>
           (\<forall>i<length ([3, 5, 3, 3] :: u64 list). prevs ! i = used (probed (table_of 2 5 8) 5) (loc_of (probed (table_of 2 5 8) 5) (([3, 5, 3, 3] :: u64 list) ! i)) +
               of_nat (count_list (take i ([3, 5, 3, 3] :: u64 list)) (([3, 5, 3, 3] :: u64 list) ! i))) \<and>
           (\<forall>i<length ([3, 5, 3, 3] :: u64 list). ([3, 5, 3, 3] :: u64 list) ! i = (3 :: u64) \<longrightarrow>
               (prevs ! i = 0 \<longleftrightarrow> (3 :: u64) \<notin> set (take i ([3, 5, 3, 3] :: u64 list)))) \<and>
           (\<exists>!i. i < length ([3, 5, 3, 3] :: u64 list) \<and> ([3, 5, 3, 3] :: u64 list) ! i = (3 :: u64) \<and> prevs ! i = 0) \<and>
           (\<forall>loc. used t' loc = used (probed (table_of 2 5 8) 5) loc + of_nat (count_list (map (loc_of (probed (table_of 2 5 8) 5)) ([3, 5, 3, 3] :: u64 list)) loc)) \<and>
           data t' = data (probed (table_of 2 5 8) 5) \<and> same_geometry (probed (table_of 2 5 8) 5) t')"
proof -
  have a: "0 < sint (2 :: i32)" and b: "unat (8 :: u64) div nat (sint (2 :: i32)) + 1 < 2 ^ 31"
    by simp_all
  have c: "HashMap_new 2 8 (data (table_of 2 5 8)) = Inr (table_of 2 5 8)"
    by (simp add: HashMap_new_def table_of_def)
  have d: "same_geometry (table_of 2 5 8) (probed (table_of 2 5 8) 5)"
    by simp
  have e: "\<forall>x\<in>set ([3, 5, 3, 3] :: u64 list). x < (8 :: u64)" and f: "(3 :: u64) \<in> set ([3, 5, 3, 3] :: u64 list)"
    by simp_all
  have g: "used (probed (table_of 2 5 8) 5) (loc_of (probed (table_of 2 5 8) 5) 3) = 0"
    by (simp add: loc_of_def)
  have h: "count_list ([3, 5, 3, 3] :: u64 list) (3 :: u64) \<le> 2 ^ 32"
    by simp
  have i: "(3 :: u64) < 8" and j: "(5 :: u64) < 8"
    by simp_all
  note run = first_request_wins [OF a b c d e f g h]
  show ?thesis
    by (intro conjI a b c d f g h i j run)
qed

text \<open>
  C5 as stated fails once a slot has been requested more than \<open>2^32\<close> times. Take one
  rank, capacity 1 and a counter starting at 0: of \<open>2^32 + 1\<close> calls on slot 0, the
  first receives 0 and the last receives 0 again, the \<open>int\<close> counter having wrapped.
\<close>

theorem second_winner_after_wrap:
  "HashMap_new 1 1 (data (table_of 1 2 1)) = Inr (table_of 1 2 1) \<and>
   used (table_of 1 2 1) (loc_of (table_of 1 2 1) 0) = 0 \<and>
   length (previous_values (table_of 1 2 1) (replicate 4294967297 0)) = 4294967297 \<and>
   previous_values (table_of 1 2 1) (replicate 4294967297 0) ! 0 = 0 \<and>
   previous_values (table_of 1 2 1) (replicate 4294967297 0) ! 1 = 1 \<and>
   previous_values (table_of 1 2 1) (replicate 4294967297 0) ! 4294967296 = 0"
proof -
  have bound: "\<forall>x\<in>set (replicate 4294967297 (0 :: u64)). x < my_size (table_of 1 2 1)"
    by simp
  note nth = previous_values_run [OF valid_table_of bound]
  have "HashMap_new 1 1 (data (table_of 1 2 1)) = Inr (table_of 1 2 1)"
    by (simp add: HashMap_new_def table_of_def)
  moreover have "length (previous_values (table_of 1 2 1) (replicate 4294967297 0)) = 4294967297"
    using length_previous_values [OF valid_table_of bound] by simp
  moreover have "previous_values (table_of 1 2 1) (replicate 4294967297 0) ! 0 = 0"
    using nth [of 0] by simp
  moreover have "previous_values (table_of 1 2 1) (replicate 4294967297 0) ! 1 = 1"
    using nth [of 1] by simp
  moreover have "previous_values (table_of 1 2 1) (replicate 4294967297 0) ! 4294967296 = 0"
    using nth [of 4294967296] by simp
  ultimately show ?thesis
    by simp
qed

subsection \<open>How often a probe sequence meets a slot\<close>

lemma mod_differs:
  fixes a b c :: nat
  assumes "a < b" and "b - a < c"
  shows "a mod c \<noteq> b mod c"
proof
  assume "a mod c = b mod c"
  then have "b mod c = a mod c"
    by simp
  then have "c dvd b - a"
    using assms(1) by (simp add: mod_eq_dvd_iff_nat)
  moreover have "0 < b - a"
    using assms(1) by simp
  ultimately have "c \<le> b - a"
    by (rule dvd_imp_le)
  then show False
    using assms(2) by simp
qed

lemma probe_slots_differ:
  assumes ij: "i < j" and j: "j < unat capacity"
    and side: "unat hash + j < 2 ^ 64 \<or> 2 ^ 64 \<le> unat hash + i"
  shows "probe_slots capacity hash 0 ! i \<noteq> probe_slots capacity hash 0 ! j"
proof -
  let ?c = "unat capacity"
  let ?h = "unat hash"
  have i: "i < ?c"
    using ij j by simp
  have c64: "?c < 2 ^ 64" and h64: "?h < 2 ^ 64"
    using unsigned_less [of capacity, where 'a = nat] unsigned_less [of hash, where 'a = nat]
    by simp_all
  have "(?h + i) mod 2 ^ 64 mod ?c \<noteq> (?h + j) mod 2 ^ 64 mod ?c"
    using side
  proof
    assume low: "?h + j < 2 ^ 64"
    then have "(?h + i) mod 2 ^ 64 = ?h + i" "(?h + j) mod 2 ^ 64 = ?h + j"
      using ij by simp_all
    moreover have "(?h + i) mod ?c \<noteq> (?h + j) mod ?c"
      using ij j by (intro mod_differs) simp_all
    ultimately show ?thesis
      by simp
  next
    assume high: "2 ^ 64 \<le> ?h + i"
    have "?h + i < 2 ^ 64 + 2 ^ 64" "?h + j < 2 ^ 64 + 2 ^ 64"
      using h64 c64 i j by simp_all
    then have "(?h + i) mod 2 ^ 64 = ?h + i - 2 ^ 64" "(?h + j) mod 2 ^ 64 = ?h + j - 2 ^ 64"
      using high ij by (simp_all add: mod_if)
    moreover have "(?h + i - 2 ^ 64) mod ?c \<noteq> (?h + j - 2 ^ 64) mod ?c"
      using ij j high by (intro mod_differs) simp_all
    ultimately show ?thesis
      by simp
  qed
  then have "unat (probe_slots capacity hash 0 ! i) \<noteq> unat (probe_slots capacity hash 0 ! j)"
    unfolding probe_slots_nth(2) [OF i] probe_slots_nth(2) [OF j] .
  then show ?thesis
    by auto
qed


lemma probe_slots_two_runs:
  "\<exists>xs1 xs2. probe_slots capacity hash 0 = xs1 @ xs2 \<and> distinct xs1 \<and> distinct xs2"
proof -
  let ?c = "unat capacity"
  let ?xs = "probe_slots capacity hash 0"
  define m where "m = min ?c (2 ^ 64 - unat hash)"
  have m: "m \<le> ?c"
    by (simp add: m_def)
  have len: "length ?xs = ?c"
    by simp
  have split: "?xs = take m ?xs @ drop m ?xs"
    by simp
  have "distinct (take m ?xs)"
  proof (rule distinct_conv_nth [THEN iffD2], intro allI impI)
    fix i j
    assume i: "i < length (take m ?xs)" and j: "j < length (take m ?xs)" and ne: "i \<noteq> j"
    have im: "i < m" and jm: "j < m"
      using i j m by simp_all
    have low: "unat hash + k < 2 ^ 64" if "k < m" for k
    proof -
      have "k < 2 ^ 64 - unat hash"
        using that by (simp add: m_def)
      then show ?thesis
        by linarith
    qed
    consider "i < j" | "j < i"
      using ne by linarith
    then have "?xs ! i \<noteq> ?xs ! j"
    proof cases
      case 1
      then show ?thesis
        using jm m low [OF jm] by (intro probe_slots_differ) simp_all
    next
      case 2
      then have "?xs ! j \<noteq> ?xs ! i"
        using im m low [OF im] by (intro probe_slots_differ) simp_all
      then show ?thesis
        by simp
    qed
    then show "take m ?xs ! i \<noteq> take m ?xs ! j"
      using im jm by simp
  qed
  moreover have "distinct (drop m ?xs)"
  proof (rule distinct_conv_nth [THEN iffD2], intro allI impI)
    fix i j
    assume i: "i < length (drop m ?xs)" and j: "j < length (drop m ?xs)" and ne: "i \<noteq> j"
    have ic: "m + i < ?c" and jc: "m + j < ?c"
      using i j by simp_all
    then have mc: "m < ?c"
      by simp
    then have "m = 2 ^ 64 - unat hash"
      by (simp add: m_def min_def split: if_splits)
    then have high: "2 ^ 64 \<le> unat hash + (m + k)" for k
      by simp
    consider "i < j" | "j < i"
      using ne by linarith
    then have "?xs ! (m + i) \<noteq> ?xs ! (m + j)"
    proof cases
      case 1
      then show ?thesis
        using jc high [of i] by (intro probe_slots_differ) simp_all
    next
      case 2
      then have "?xs ! (m + j) \<noteq> ?xs ! (m + i)"
        using ic high [of j] by (intro probe_slots_differ) simp_all
      then show ?thesis
        by simp
    qed
    then show "drop m ?xs ! i \<noteq> drop m ?xs ! j"
      using ic jc by simp
  qed
  ultimately show ?thesis
    using split by blast
qed

lemma distinct_count_le_1:
  "distinct xs \<Longrightarrow> count_list xs x \<le> 1"
  by (induction xs) auto

lemma probed_locations_twice:
  assumes "valid t"
  shows "count_list (map (loc_of t) (probe_slots (my_size t) hash 0)) loc \<le> 2"
    and "unat (my_size t) \<le> 2 * card (loc_of t ` set (probe_slots (my_size t) hash 0))"
proof -
  let ?xs = "probe_slots (my_size t) hash 0"
  obtain xs1 xs2 where split: "?xs = xs1 @ xs2" and d1: "distinct xs1" and d2: "distinct xs2"
    using probe_slots_two_runs by blast
  have bound: "\<forall>x\<in>set ?xs. x < my_size t"
    by (rule probe_slots_all_bound)
  have "inj_on (loc_of t) (set xs1)" "inj_on (loc_of t) (set xs2)"
    using bound assms by (auto intro!: loc_of_inj_on simp: split)
  then have l1: "distinct (map (loc_of t) xs1)" and l2: "distinct (map (loc_of t) xs2)"
    using d1 d2 by (simp_all add: distinct_map)
  have "count_list (map (loc_of t) xs1) loc \<le> 1" "count_list (map (loc_of t) xs2) loc \<le> 1"
    using distinct_count_le_1 [OF l1] distinct_count_le_1 [OF l2] by simp_all
  then show "count_list (map (loc_of t) ?xs) loc \<le> 2"
    by (simp add: split)
  have "length xs1 = card (loc_of t ` set xs1)" "length xs2 = card (loc_of t ` set xs2)"
    using l1 l2 distinct_card [of "map (loc_of t) xs1"] distinct_card [of "map (loc_of t) xs2"]
    by simp_all
  moreover have "card (loc_of t ` set xs1) \<le> card (loc_of t ` set ?xs)"
    "card (loc_of t ` set xs2) \<le> card (loc_of t ` set ?xs)"
    by (auto intro!: card_mono simp: split)
  moreover have "length ?xs = length xs1 + length xs2"
    by (simp only: split length_append)
  ultimately have "length ?xs \<le> 2 * card (loc_of t ` set ?xs)"
    by linarith
  then show "unat (my_size t) \<le> 2 * card (loc_of t ` set ?xs)"
    by simp
qed

lemma count_list_take_le: "count_list (take k xs) x \<le> count_list xs x"
proof -
  have "count_list xs x = count_list (take k xs @ drop k xs) x"
    by simp
  then show ?thesis
    by (simp only: count_list_append)
qed

lemma probe_events_append [simp]:
  "probe_events (ps @ qs) = probe_events ps @ probe_events qs"
  by (simp add: probe_events_def)

lemma zip_prefix:
  assumes "length ys \<le> length xs"
  shows "zip xs ys = zip (take (length ys) xs) ys"
proof -
  have "zip xs ys = take (length ys) (zip xs ys)"
    using assms by simp
  also have "\<dots> = zip (take (length ys) xs) (take (length ys) ys)"
    by (rule take_zip)
  finally show ?thesis
    by simp
qed

lemma request_all_one:
  assumes "valid t" and "slot < my_size t"
  shows "request_all t [slot] = Inr ([used t (loc_of t slot)], probed t slot)"
proof -
  obtain fut t1 where "request_slot t slot = Inr (fut, t1)"
    and "wait fut t1 = (used t (loc_of t slot), probed t slot)"
    using request_slot_valid [OF assms] by blast
  then show ?thesis
    by simp
qed

lemma insert_kmer_claim:
  assumes "valid t"
  shows "\<exists>b t'. insert_kmer H t km = Inr (b, t') \<and> same_geometry t t' \<and>
           (\<forall>loc. used t loc \<noteq> 0 \<and> unat (used t loc) + 2 < 2 ^ 32 \<longrightarrow> used t' loc \<noteq> 0) \<and>
           (b \<longrightarrow> (\<exists>loc evs. data t' = (data t)(loc := km) \<and> used t' loc = 1 \<and>
              new_events t t' =
                evs @ [Issue (FetchAdd loc 0), Wait (FetchAdd loc 0), Issue (Put loc)])) \<and>
           (\<not> b \<longrightarrow> data t' = data t)"
proof -
  let ?xs = "probe_slots (my_size t) (H (kmer km)) 0"
  let ?ls = "map (loc_of t) ?xs"
  from insert_kmer_run [OF assms, of H km] obtain b t' prevs where
    run: "insert_kmer H t km = Inr (b, t')" and len: "length prevs \<le> unat (my_size t)"
    and tr: "new_events t t' = probe_events (zip ?ls prevs) @
               (if b then [Issue (Put (loc_of t (?xs ! (length prevs - 1))))] else [])"
    and p: "\<forall>i<length prevs. prevs ! i = used t (loc_of t (?xs ! i)) +
               of_nat (count_list (take i ?ls) (loc_of t (?xs ! i)))"
    and nz: "0 \<notin> set (butlast prevs)" and b: "b \<longleftrightarrow> 0 \<in> set prevs"
    and u: "\<forall>loc. used t' loc = used t loc + of_nat (count_list (take (length prevs) ?ls) loc)"
    and d: "data t' = (if b then (data t)(loc_of t (?xs ! (length prevs - 1)) := km) else data t)"
    and g: "same_geometry t t'"
    by blast
  have mono: "used t' loc \<noteq> 0" if "used t loc \<noteq> 0 \<and> unat (used t loc) + 2 < 2 ^ 32" for loc
  proof -
    have "count_list (take (length prevs) ?ls) loc \<le> count_list ?ls loc"
      by (rule count_list_take_le)
    also have "\<dots> \<le> 2"
      using assms by (rule probed_locations_twice(1))
    finally have "unat (used t loc) + count_list (take (length prevs) ?ls) loc < 2 ^ 32"
      using that by simp
    then have "used t loc + of_nat (count_list (take (length prevs) ?ls) loc) \<noteq> 0"
      using that by (intro counter_stays_claimed) simp_all
    then show ?thesis
      using u by simp
  qed
  have win: "\<exists>loc evs. data t' = (data t)(loc := km) \<and> used t' loc = 1 \<and>
              new_events t t' =
                evs @ [Issue (FetchAdd loc 0), Wait (FetchAdd loc 0), Issue (Put loc)]" if b
  proof -
    let ?k = "length prevs - 1"
    let ?loc = "loc_of t (?xs ! ?k)"
    have ne: "prevs \<noteq> []"
      using that b by auto
    then have k: "Suc ?k = length prevs" and kp: "?k < length prevs"
      by simp_all
    have kx: "?k < length ?ls"
      using kp len by simp
    have lastp: "last prevs = 0"
    proof -
      have "prevs = butlast prevs @ [last prevs]"
        using ne by simp
      then have "set prevs = set (butlast prevs) \<union> {last prevs}"
        by (metis Un_insert_right list.simps(15) set_append sup_bot.right_neutral empty_set)
      then show ?thesis
        using that b nz by auto
    qed
    then have pk: "prevs ! ?k = 0"
      using ne by (simp add: last_conv_nth)
    have lk: "?ls ! ?k = ?loc"
      using kx by simp
    have tk: "take (length prevs) ?ls = take ?k ?ls @ [?loc]"
      using take_Suc_conv_app_nth [OF kx] k lk by simp
    have "used t' ?loc = used t ?loc + of_nat (count_list (take ?k ?ls) ?loc) + 1"
      using u by (simp add: tk)
    also have "\<dots> = prevs ! ?k + 1"
      using p kp by simp
    finally have one: "used t' ?loc = 1"
      using pk by simp
    have "zip ?ls prevs = zip (take (length prevs) ?ls) prevs"
      using len by (intro zip_prefix) simp
    also have "\<dots> = zip (take ?k ?ls @ [?loc]) (butlast prevs @ [last prevs])"
      using ne by (simp add: tk)
    also have "\<dots> = zip (take ?k ?ls) (butlast prevs) @ [(?loc, 0)]"
      using kx lastp by simp
    finally have ev: "new_events t t' = probe_events (zip (take ?k ?ls) (butlast prevs)) @
        [Issue (FetchAdd ?loc 0), Wait (FetchAdd ?loc 0), Issue (Put ?loc)]"
      using tr that by simp
    have d': "data t' = (data t)(?loc := km)"
      using d that by simp
    show ?thesis
      by (intro exI [of _ ?loc] exI [of _ "probe_events (zip (take ?k ?ls) (butlast prevs))"]
          conjI d' one ev)
  qed
  show ?thesis
    using run g mono win d by (intro exI [of _ b] exI [of _ t']) auto
qed


subsection \<open>Counters and records over the operations\<close>

text \<open>
  C6, as the code has it. Take a table constructed for at least one rank and a capacity
  with \<open>capacity / ranks + 1 < 2^31\<close>, in any later state \<open>t\<close>.
  \<^item> \<open>request_slot(slot).wait()\<close> on a slot below the capacity adds 1 to that slot's
    counter and changes nothing else, so a non-zero counter stays non-zero unless it
    was -1, the last value before the \<open>int\<close> wraps.
  \<^item> \<open>insert\<close> adds at most 2 to any counter, so a non-zero counter below
    \<open>2^32 - 2\<close> stays non-zero. It writes a record only when it returns success, and
    then to one slot only, right after its own fetch-add on that slot has returned 0;
    that slot's counter is 1 afterwards.
  \<^item> \<open>find\<close> changes no counter and no record.
  So a counter leaves 0 once and comes back to 0 only by wrapping around.
\<close>

theorem counters_never_revert:
  assumes "0 < sint nranks" and "unat capacity div nat (sint nranks) + 1 < 2 ^ 31"
    and "HashMap_new nranks capacity d0 = Inr t0" and "same_geometry t0 t"
  shows "(\<forall>slot. slot < capacity \<longrightarrow>
            (\<exists>fut t1 t'. request_slot t slot = Inr (fut, t1) \<and>
               wait fut t1 = (used t (loc_of t slot), t') \<and>
               used t' = (used t)(loc_of t slot := used t (loc_of t slot) + 1) \<and>
               data t' = data t \<and> same_geometry t t' \<and>
               (\<forall>loc. used t loc \<noteq> 0 \<and> used t loc \<noteq> - 1 \<longrightarrow> used t' loc \<noteq> 0))) \<and>
         (\<exists>b t'. insert_kmer H t km = Inr (b, t') \<and> same_geometry t t' \<and>
            (\<forall>loc. used t loc \<noteq> 0 \<and> unat (used t loc) + 2 < 2 ^ 32 \<longrightarrow> used t' loc \<noteq> 0) \<and>
            (b \<longrightarrow> (\<exists>loc evs. data t' = (data t)(loc := km) \<and> used t' loc = 1 \<and>
               new_events t t' =
                 evs @ [Issue (FetchAdd loc 0), Wait (FetchAdd loc 0), Issue (Put loc)])) \<and>
            (\<not> b \<longrightarrow> data t' = data t)) \<and>
         (capacity \<noteq> 0 \<longrightarrow>
            (\<exists>b v t'. find_kmer H t key_kmer = Inr (b, v, t') \<and>
               used t' = used t \<and> data t' = data t \<and> same_geometry t t'))"
proof (intro conjI allI impI)
  have v: "valid t" and c: "my_size t = capacity"
    using state_valid [OF assms] by simp_all
  show "(\<exists>b t'. insert_kmer H t km = Inr (b, t') \<and> same_geometry t t' \<and>
            (\<forall>loc. used t loc \<noteq> 0 \<and> unat (used t loc) + 2 < 2 ^ 32 \<longrightarrow> used t' loc \<noteq> 0) \<and>
            (b \<longrightarrow> (\<exists>loc evs. data t' = (data t)(loc := km) \<and> used t' loc = 1 \<and>
               new_events t t' =
                 evs @ [Issue (FetchAdd loc 0), Wait (FetchAdd loc 0), Issue (Put loc)])) \<and>
            (\<not> b \<longrightarrow> data t' = data t))"
    using v by (rule insert_kmer_claim)
  show "(\<exists>b v t'. find_kmer H t key_kmer = Inr (b, v, t') \<and>
               used t' = used t \<and> data t' = data t \<and> same_geometry t t')" if "capacity \<noteq> 0"
  proof -
    have "my_size t \<noteq> 0"
      using that c by simp
    from find_kmer_run [OF v this, of H key_kmer] show ?thesis
      unfolding same_geometry_def by blast
  qed
  show "(\<exists>fut t1 t'. request_slot t slot = Inr (fut, t1) \<and>
               wait fut t1 = (used t (loc_of t slot), t') \<and>
               used t' = (used t)(loc_of t slot := used t (loc_of t slot) + 1) \<and>
               data t' = data t \<and> same_geometry t t' \<and>
               (\<forall>loc. used t loc \<noteq> 0 \<and> used t loc \<noteq> - 1 \<longrightarrow> used t' loc \<noteq> 0))" if "slot < capacity" for slot
  proof -
    have s: "slot < my_size t"
      using that c by simp
    obtain fut t1 where r: "request_slot t slot = Inr (fut, t1)"
      and w: "wait fut t1 = (used t (loc_of t slot), probed t slot)"
      using request_slot_valid [OF v s] by blast
    have "used (probed t slot) loc \<noteq> 0" if "used t loc \<noteq> 0 \<and> used t loc \<noteq> - 1" for loc
      using that by (auto simp: add_eq_0_iff2)
    then show ?thesis
      using r w by (intro exI [of _ fut] exI [of _ t1] exI [of _ "probed t slot"]) auto
  qed
qed

theorem counters_never_revert_witness:
  "0 < sint (2 :: i32) \<and> unat (8 :: u64) div nat (sint (2 :: i32)) + 1 < 2 ^ 31 \<and>
   HashMap_new 2 8 (data (table_of 2 5 8)) = Inr (table_of 2 5 8) \<and>
   same_geometry (table_of 2 5 8) (probed (table_of 2 5 8) 5) \<and>
   (5 :: u64) < 8 \<and>
   (\<exists>fut t1 t'. request_slot (probed (table_of 2 5 8) 5) (5 :: u64) = Inr (fut, t1) \<and>
               wait fut t1 = (used (probed (table_of 2 5 8) 5) (loc_of (probed (table_of 2 5 8) 5) (5 :: u64)), t') \<and>
               used t' = (used (probed (table_of 2 5 8) 5))(loc_of (probed (table_of 2 5 8) 5) (5 :: u64) := used (probed (table_of 2 5 8) 5) (loc_of (probed (table_of 2 5 8) 5) (5 :: u64)) + 1) \<and>
               data t' = data (probed (table_of 2 5 8) 5) \<and> same_geometry (probed (table_of 2 5 8) 5) t' \<and>
               (\<forall>loc. used (probed (table_of 2 5 8) 5) loc \<noteq> 0 \<and> used (probed (table_of 2 5 8) 5) loc \<noteq> - 1 \<longrightarrow> used t' loc \<noteq> 0)) \<and>
   (\<exists>b t'. insert_kmer hash_id (probed (table_of 2 5 8) 5) (rec_of 5) = Inr (b, t') \<and> same_geometry (probed (table_of 2 5 8) 5) t' \<and>
            (\<forall>loc. used (probed (table_of 2 5 8) 5) loc \<noteq> 0 \<and> unat (used (probed (table_of 2 5 8) 5) loc) + 2 < 2 ^ 32 \<longrightarrow> used t' loc \<noteq> 0) \<and>
            (b \<longrightarrow> (\<exists>loc evs. data t' = (data (probed (table_of 2 5 8) 5))(loc := (rec_of 5)) \<and> used t' loc = 1 \<and>
               new_events (probed (table_of 2 5 8) 5) t' =
                 evs @ [Issue (FetchAdd loc 0), Wait (FetchAdd loc 0), Issue (Put loc)])) \<and>
            (\<not> b \<longrightarrow> data t' = data (probed (table_of 2 5 8) 5))) \<and>
   (8 :: u64) \<noteq> 0 \<and>
   (\<exists>b v t'. find_kmer hash_id (probed (table_of 2 5 8) 5) 5 = Inr (b, v, t') \<and>
               used t' = used (probed (table_of 2 5 8) 5) \<and> data t' = data (probed (table_of 2 5 8) 5) \<and> same_geometry (probed (table_of 2 5 8) 5) t')"
proof -
  have a: "0 < sint (2 :: i32)" and b: "unat (8 :: u64) div nat (sint (2 :: i32)) + 1 < 2 ^ 31"
    by simp_all
  have c: "HashMap_new 2 8 (data (table_of 2 5 8)) = Inr (table_of 2 5 8)"
    by (simp add: HashMap_new_def table_of_def)
  have d: "same_geometry (table_of 2 5 8) (probed (table_of 2 5 8) 5)"
    by simp
  have e: "(5 :: u64) < 8" and f: "(8 :: u64) \<noteq> 0"
    by simp_all
  note th = counters_never_revert [OF a b c d, where H = hash_id and km = "rec_of 5"
      and key_kmer = 5]
  have r: "(\<exists>fut t1 t'. request_slot (probed (table_of 2 5 8) 5) (5 :: u64) = Inr (fut, t1) \<and>
               wait fut t1 = (used (probed (table_of 2 5 8) 5) (loc_of (probed (table_of 2 5 8) 5) (5 :: u64)), t') \<and>
               used t' = (used (probed (table_of 2 5 8) 5))(loc_of (probed (table_of 2 5 8) 5) (5 :: u64) := used (probed (table_of 2 5 8) 5) (loc_of (probed (table_of 2 5 8) 5) (5 :: u64)) + 1) \<and>
               data t' = data (probed (table_of 2 5 8) 5) \<and> same_geometry (probed (table_of 2 5 8) 5) t' \<and>
               (\<forall>loc. used (probed (table_of 2 5 8) 5) loc \<noteq> 0 \<and> used (probed (table_of 2 5 8) 5) loc \<noteq> - 1 \<longrightarrow> used t' loc \<noteq> 0))"
    using th e by blast
  have i: "(\<exists>b t'. insert_kmer hash_id (probed (table_of 2 5 8) 5) (rec_of 5) = Inr (b, t') \<and> same_geometry (probed (table_of 2 5 8) 5) t' \<and>
            (\<forall>loc. used (probed (table_of 2 5 8) 5) loc \<noteq> 0 \<and> unat (used (probed (table_of 2 5 8) 5) loc) + 2 < 2 ^ 32 \<longrightarrow> used t' loc \<noteq> 0) \<and>
            (b \<longrightarrow> (\<exists>loc evs. data t' = (data (probed (table_of 2 5 8) 5))(loc := (rec_of 5)) \<and> used t' loc = 1 \<and>
               new_events (probed (table_of 2 5 8) 5) t' =
                 evs @ [Issue (FetchAdd loc 0), Wait (FetchAdd loc 0), Issue (Put loc)])) \<and>
            (\<not> b \<longrightarrow> data t' = data (probed (table_of 2 5 8) 5)))"
    using th by blast
  have g: "(\<exists>b v t'. find_kmer hash_id (probed (table_of 2 5 8) 5) 5 = Inr (b, v, t') \<and>
               used t' = used (probed (table_of 2 5 8) 5) \<and> data t' = data (probed (table_of 2 5 8) 5) \<and> same_geometry (probed (table_of 2 5 8) 5) t')"
    using th f by blast
  show ?thesis
    by (intro conjI a b c d e f r i g)
qed

text \<open>
  C6 as stated fails: a counter does revert to 0. Take one rank and capacity 1. After
  one \<open>request_slot\<close> on slot 0 its counter is 1, after \<open>2^32 - 1\<close> of them it is
  -1, and one more call, which is answered -1, leaves it at 0.
\<close>

theorem counter_reverts_after_wrap:
  "HashMap_new 1 1 (data (table_of 1 2 1)) = Inr (table_of 1 2 1) \<and>
   used (table_of 1 2 1) \<lparr>rank = 0, offset = 0\<rparr> = 0 \<and>
   used (table_after (table_of 1 2 1) (replicate 1 0)) \<lparr>rank = 0, offset = 0\<rparr> = 1 \<and>
   used (table_after (table_of 1 2 1) (replicate 4294967295 0)) \<lparr>rank = 0, offset = 0\<rparr> = - 1 \<and>
   request_all (table_after (table_of 1 2 1) (replicate 4294967295 0)) [0] =
     Inr ([- 1], probed (table_after (table_of 1 2 1) (replicate 4294967295 0)) 0) \<and>
   used (probed (table_after (table_of 1 2 1) (replicate 4294967295 0)) 0)
     \<lparr>rank = 0, offset = 0\<rparr> = 0"
proof -
  let ?S = "table_after (table_of 1 2 1) (replicate 4294967295 0)"
  have bound: "\<forall>x\<in>set (replicate n (0 :: u64)). x < my_size (table_of 1 2 1)" for n
    by simp
  note after = table_after_run [OF valid_table_of bound]
  have new: "HashMap_new 1 1 (data (table_of 1 2 1)) = Inr (table_of 1 2 1)"
    by (simp add: HashMap_new_def table_of_def)
  have one: "used (table_after (table_of 1 2 1) (replicate 1 0)) \<lparr>rank = 0, offset = 0\<rparr> = 1"
    using after(5) [of 1 "\<lparr>rank = 0, offset = 0\<rparr>"] by simp
  have u: "used ?S \<lparr>rank = 0, offset = 0\<rparr> = - 1"
    using after(5) [of 4294967295 "\<lparr>rank = 0, offset = 0\<rparr>"] by simp
  have "0 < my_size ?S"
    using after(2) [of 4294967295] by simp
  then have step: "request_all ?S [0] = Inr ([- 1], probed ?S 0)"
    using request_all_one [OF after(1) [of 4294967295], of 0] u by simp
  have "used (probed ?S 0) \<lparr>rank = 0, offset = 0\<rparr> = 0"
    using u by simp
  then show ?thesis
    using new one u step by simp
qed

subsection \<open>A successful insert\<close>

lemma insert_kmer_success:
  assumes v: "valid t" and run: "insert_kmer H t km = Inr (True, t')"
  shows "\<exists>x\<in>set (probe_slots (my_size t) (H (kmer km)) 0).
           data t' = (data t)(loc_of t x := km) \<and> used t' (loc_of t x) = 1 \<and>
           same_geometry t t' \<and>
           (\<forall>l. \<exists>j\<le>2. used t' l = used t l + of_nat j) \<and>
           (\<forall>l. used t l = 0 \<and> l \<noteq> loc_of t x \<longrightarrow> used t' l = 0) \<and>
           (\<exists>j\<le>2. used t (loc_of t x) + of_nat j = 0)"
proof -
  let ?xs = "probe_slots (my_size t) (H (kmer km)) 0"
  let ?ls = "map (loc_of t) ?xs"
  from insert_kmer_run [OF v, of H km] obtain b t'' prevs where
    run': "insert_kmer H t km = Inr (b, t'')" and len: "length prevs \<le> unat (my_size t)"
    and p: "\<forall>i<length prevs. prevs ! i = used t (loc_of t (?xs ! i)) +
               of_nat (count_list (take i ?ls) (loc_of t (?xs ! i)))"
    and nz: "0 \<notin> set (butlast prevs)" and b: "b \<longleftrightarrow> 0 \<in> set prevs"
    and u': "\<forall>loc. used t'' loc = used t loc + of_nat (count_list (take (length prevs) ?ls) loc)"
    and d': "data t'' = (if b then (data t)(loc_of t (?xs ! (length prevs - 1)) := km) else data t)"
    and g': "same_geometry t t''"
    by blast
  have bt: "b" "t'' = t'"
    using run run' by simp_all
  note u = u' [unfolded bt] and g = g' [unfolded bt]
  let ?k = "length prevs - 1"
  let ?loc = "loc_of t (?xs ! ?k)"
  have d: "data t' = (data t)(?loc := km)"
    using d' bt by simp
  have ne: "prevs \<noteq> []"
    using bt b by auto
  then have k: "Suc ?k = length prevs" and kp: "?k < length prevs"
    by simp_all
  have kx: "?k < length ?ls"
    using kp len by simp
  have kb: "length (butlast prevs) = ?k"
    by simp
  have "prevs = butlast prevs @ [last prevs]"
    using ne by simp
  then have "set prevs = insert (last prevs) (set (butlast prevs))"
    by (metis Un_insert_right list.simps(15) set_append sup_bot.right_neutral empty_set)
  then have "last prevs = 0"
    using bt b nz by auto
  then have pk: "prevs ! ?k = 0"
    using ne by (simp add: last_conv_nth)
  have lk: "?ls ! ?k = ?loc"
    using kx by simp
  have tk: "take (length prevs) ?ls = take ?k ?ls @ [?loc]"
    using take_Suc_conv_app_nth [OF kx] k lk by simp
  have cnt: "count_list (take n ?ls) l \<le> 2" for n l
  proof -
    have "count_list (take n ?ls) l \<le> count_list ?ls l"
      by (rule count_list_take_le)
    also have "\<dots> \<le> 2"
      using v by (rule probed_locations_twice(1))
    finally show ?thesis .
  qed
  have pkv: "prevs ! ?k = used t ?loc + of_nat (count_list (take ?k ?ls) ?loc)"
    using p kp by blast
  have "used t' ?loc = used t ?loc + of_nat (count_list (take ?k ?ls) ?loc) + 1"
    using u by (simp add: tk)
  then have one: "used t' ?loc = 1"
    using pkv pk by simp
  have claim: "\<exists>j\<le>2. used t ?loc + of_nat j = 0"
    using pkv pk cnt [of ?k ?loc] by auto
  have adds: "\<forall>l. \<exists>j\<le>2. used t' l = used t l + of_nat j"
    using u cnt by blast
  have stay: "used t' l = 0" if l0: "used t l = 0" and ln: "l \<noteq> ?loc" for l
  proof -
    have "l \<notin> set (take ?k ?ls)"
    proof
      assume "l \<in> set (take ?k ?ls)"
      then obtain ys zs where split: "take ?k ?ls = ys @ l # zs" and ys: "l \<notin> set ys"
        using split_list_first by fast
      let ?i = "length ys"
      have "length (take ?k ?ls) = length (ys @ l # zs)"
        by (simp only: split)
      moreover have "length (take ?k ?ls) = ?k"
        using kx by simp
      ultimately have ik: "?i < ?k"
        by simp
      have "take ?k ?ls ! ?i = l"
        unfolding split by simp
      then have li: "?ls ! ?i = l"
        using ik by simp
      have "?i < length ?xs"
        using ik kx by simp
      then have xi: "loc_of t (?xs ! ?i) = l"
        using li by simp
      have "take ?i (take ?k ?ls) = ys"
        unfolding split by simp
      then have ti: "take ?i ?ls = ys"
        using ik by (simp add: min_def)
      have "prevs ! ?i = used t (loc_of t (?xs ! ?i)) +
              of_nat (count_list (take ?i ?ls) (loc_of t (?xs ! ?i)))"
        using p ik kp by simp
      then have "prevs ! ?i = 0"
        using l0 ys by (simp add: xi ti)
      moreover have "butlast prevs ! ?i = prevs ! ?i"
        using ik kb by (simp add: nth_butlast)
      moreover have "butlast prevs ! ?i \<in> set (butlast prevs)"
        using ik kb by (intro nth_mem) simp
      ultimately show False
        using nz by simp
    qed
    then have "l \<notin> set (take (length prevs) ?ls)"
      using ln by (simp add: tk)
    then have "count_list (take (length prevs) ?ls) l = 0"
      by simp
    then show ?thesis
      using u l0 by simp
  qed
  have mem: "?xs ! ?k \<in> set ?xs"
    using kx by (intro nth_mem) simp
  show ?thesis
    using d one g adds stay claim by (intro bexI [OF _ mem]) blast
qed


lemma unat_add_of_nat_le:
  fixes c :: i32
  shows "unat (c + of_nat k) \<le> unat c + k"
proof -
  have "unat (c + of_nat k) \<le> unat c + unat (of_nat k :: i32)"
    by (simp add: unat_word_ariths)
  moreover have "unat (of_nat k :: i32) \<le> k"
    by (simp add: unat_of_nat)
  ultimately show ?thesis
    by linarith
qed

lemma insert_kmer_step:
  assumes v: "valid t" and fin: "finite {l. used t l \<noteq> 0}"
    and card: "card {l. used t l \<noteq> 0} \<le> n" and cnt: "\<forall>l. unat (used t l) \<le> 2 * n"
    and cap: "2 * n < unat (my_size t)" and lim: "Suc n < 2 ^ 31"
  shows "\<exists>t'. insert_kmer H t km = Inr (True, t') \<and> same_geometry t t' \<and> valid t' \<and>
           finite {l. used t' l \<noteq> 0} \<and> card {l. used t' l \<noteq> 0} \<le> Suc n \<and>
           (\<forall>l. unat (used t' l) \<le> 2 * Suc n) \<and>
           (\<forall>key. (key = kmer km \<or>
                (\<exists>x\<in>set (probe_slots (my_size t) (H key) 0).
                   used t (loc_of t x) \<noteq> 0 \<and> kmer (data t (loc_of t x)) = key)) \<longrightarrow>
              (\<exists>x\<in>set (probe_slots (my_size t') (H key) 0).
                   used t' (loc_of t' x) \<noteq> 0 \<and> kmer (data t' (loc_of t' x)) = key))"
proof -
  let ?xs = "probe_slots (my_size t) (H (kmer km)) 0"
  let ?U = "{l. used t l \<noteq> 0}"
  from insert_kmer_total [OF v, of H km] obtain b t' where run: "insert_kmer H t km = Inr (b, t')"
    by auto
  have b: "b"
  proof (rule ccontr)
    assume "\<not> b"
    then have "insert_spec t km ?xs = Inr (False, t')"
      using run by (simp add: insert_kmer_spec)
    from insert_spec_failure_claimed [OF v probe_slots_all_bound this]
    have "loc_of t ` set ?xs \<subseteq> ?U"
      by auto
    then have "card (loc_of t ` set ?xs) \<le> card ?U"
      using fin by (rule card_mono [rotated])
    then have "2 * card (loc_of t ` set ?xs) \<le> 2 * n"
      using card by simp
    then show False
      using probed_locations_twice(2) [OF v, of "H (kmer km)"] cap by linarith
  qed
  then have run: "insert_kmer H t km = Inr (True, t')"
    using run by simp
  from insert_kmer_success [OF v run] obtain x where
    x: "x \<in> set ?xs" and d: "data t' = (data t)(loc_of t x := km)"
    and u1: "used t' (loc_of t x) = 1" and g: "same_geometry t t'"
    and adds: "\<forall>l. \<exists>j\<le>2. used t' l = used t l + of_nat j"
    and stay: "\<forall>l. used t l = 0 \<and> l \<noteq> loc_of t x \<longrightarrow> used t' l = 0"
    and claim: "\<exists>j\<le>2. used t (loc_of t x) + of_nat j = 0"
    by blast
  have sz: "my_size t' = my_size t" and loc: "loc_of t' = loc_of t"
    using g by (auto simp: same_geometry_def loc_of_def fun_eq_iff)
  have v': "valid t'"
    using v g by (simp add: valid_def same_geometry_def)
  have sub: "{l. used t' l \<noteq> 0} \<subseteq> insert (loc_of t x) ?U"
    using stay by auto
  have fin': "finite {l. used t' l \<noteq> 0}"
    using sub fin by (meson finite_insert finite_subset)
  have "card {l. used t' l \<noteq> 0} \<le> card (insert (loc_of t x) ?U)"
    using sub fin by (intro card_mono) simp_all
  also have "\<dots> \<le> Suc (card ?U)"
    using fin by (simp add: card_insert_if)
  finally have card': "card {l. used t' l \<noteq> 0} \<le> Suc n"
    using card by simp
  have cnt': "unat (used t' l) \<le> 2 * Suc n" for l
  proof -
    from adds obtain j where j: "j \<le> 2" and e: "used t' l = used t l + of_nat j"
      by blast
    have "unat (used t' l) \<le> unat (used t l) + j"
      unfolding e by (rule unat_add_of_nat_le)
    then show ?thesis
      using cnt [rule_format, of l] j by simp
  qed
  have keep: "used t l + of_nat j \<noteq> 0" if "used t l \<noteq> 0" and "j \<le> 2" for l j
  proof (rule counter_stays_claimed [OF that(1)])
    have "2 * n + 2 < (2 :: nat) ^ 32"
      using lim by simp
    then show "unat (used t l) + j < 2 ^ 32"
      using cnt [rule_format, of l] that(2) by linarith
  qed
  have free: "used t (loc_of t x) = 0"
    using claim keep by blast
  have new: "\<exists>y\<in>set (probe_slots (my_size t') (H (kmer km)) 0).
      used t' (loc_of t' y) \<noteq> 0 \<and> kmer (data t' (loc_of t' y)) = kmer km"
    using x u1 d by (auto simp: sz loc intro!: bexI [of _ x])
  have old: "\<exists>y\<in>set (probe_slots (my_size t') (H key) 0).
      used t' (loc_of t' y) \<noteq> 0 \<and> kmer (data t' (loc_of t' y)) = key"
    if "\<exists>y\<in>set (probe_slots (my_size t) (H key) 0).
      used t (loc_of t y) \<noteq> 0 \<and> kmer (data t (loc_of t y)) = key" for key
  proof -
    from that obtain y where y: "y \<in> set (probe_slots (my_size t) (H key) 0)"
      and uy: "used t (loc_of t y) \<noteq> 0" and ky: "kmer (data t (loc_of t y)) = key"
      by blast
    have ne: "loc_of t y \<noteq> loc_of t x"
      using uy free by auto
    from adds obtain j where j: "j \<le> 2" and e: "used t' (loc_of t y) = used t (loc_of t y) + of_nat j"
      by blast
    have "used t' (loc_of t y) \<noteq> 0"
      unfolding e using uy j by (rule keep)
    moreover have "kmer (data t' (loc_of t y)) = key"
      using ne ky by (simp add: d)
    ultimately show ?thesis
      using y by (auto simp: sz loc intro!: bexI [of _ y])
  qed
  show ?thesis
    using run g v' fin' card' cnt' new old by blast
qed

lemma insert_all_run:
  assumes "valid t" and "finite {l. used t l \<noteq> 0}"
    and "card {l. used t l \<noteq> 0} \<le> n" and "\<forall>l. unat (used t l) \<le> 2 * n"
    and "2 * (n + length kms) < unat (my_size t)" and "n + length kms < 2 ^ 31"
  shows "\<exists>t'. insert_all H t kms = Inr (replicate (length kms) True, t') \<and>
           same_geometry t t' \<and>
           (\<forall>key. (key \<in> kmer ` set kms \<or>
                (\<exists>x\<in>set (probe_slots (my_size t) (H key) 0).
                   used t (loc_of t x) \<noteq> 0 \<and> kmer (data t (loc_of t x)) = key)) \<longrightarrow>
              (\<exists>x\<in>set (probe_slots (my_size t') (H key) 0).
                   kmer (data t' (loc_of t' x)) = key))"
  using assms
proof (induction kms arbitrary: t n)
  case Nil
  show ?case
    by (auto intro!: exI [of _ t])
next
  case (Cons km kms)
  have cap: "2 * n < unat (my_size t)" and lim: "Suc n < 2 ^ 31"
    using Cons.prems(5,6) by simp_all
  from insert_kmer_step [OF Cons.prems(1-4) cap lim, of H km] obtain t1 where
    run: "insert_kmer H t km = Inr (True, t1)" and g: "same_geometry t t1" and v1: "valid t1"
    and fin1: "finite {l. used t1 l \<noteq> 0}" and card1: "card {l. used t1 l \<noteq> 0} \<le> Suc n"
    and cnt1: "\<forall>l. unat (used t1 l) \<le> 2 * Suc n"
    and st: "\<forall>key. (key = kmer km \<or>
                (\<exists>x\<in>set (probe_slots (my_size t) (H key) 0).
                   used t (loc_of t x) \<noteq> 0 \<and> kmer (data t (loc_of t x)) = key)) \<longrightarrow>
              (\<exists>x\<in>set (probe_slots (my_size t1) (H key) 0).
                   used t1 (loc_of t1 x) \<noteq> 0 \<and> kmer (data t1 (loc_of t1 x)) = key)"
    by blast
  have sz: "my_size t1 = my_size t"
    using g by (simp add: same_geometry_def)
  have cap1: "2 * (Suc n + length kms) < unat (my_size t1)" and lim1: "Suc n + length kms < 2 ^ 31"
    using Cons.prems(5,6) by (simp_all add: sz)
  from Cons.IH [OF v1 fin1 card1 cnt1 cap1 lim1] obtain t' where
    run': "insert_all H t1 kms = Inr (replicate (length kms) True, t')"
    and g': "same_geometry t1 t'"
    and st': "\<forall>key. (key \<in> kmer ` set kms \<or>
                (\<exists>x\<in>set (probe_slots (my_size t1) (H key) 0).
                   used t1 (loc_of t1 x) \<noteq> 0 \<and> kmer (data t1 (loc_of t1 x)) = key)) \<longrightarrow>
              (\<exists>x\<in>set (probe_slots (my_size t') (H key) 0).
                   kmer (data t' (loc_of t' x)) = key)"
    by blast
  have "insert_all H t (km # kms) = Inr (replicate (length (km # kms)) True, t')"
    using run run' by simp
  moreover have "same_geometry t t'"
    using g g' by (simp add: same_geometry_def)
  moreover have "\<exists>x\<in>set (probe_slots (my_size t') (H key) 0). kmer (data t' (loc_of t' x)) = key"
    if "key \<in> kmer ` set (km # kms) \<or>
                (\<exists>x\<in>set (probe_slots (my_size t) (H key) 0).
                   used t (loc_of t x) \<noteq> 0 \<and> kmer (data t (loc_of t x)) = key)" for key
  proof -
    have "key \<in> kmer ` set kms \<or>
                (\<exists>x\<in>set (probe_slots (my_size t1) (H key) 0).
                   used t1 (loc_of t1 x) \<noteq> 0 \<and> kmer (data t1 (loc_of t1 x)) = key)"
      using that st by auto
    then show ?thesis
      using st' by blast
  qed
  ultimately show ?case
    by blast
qed

subsection \<open>Inserts at low load, then finds\<close>




end
